theory Spec2Isabelle
  imports Main "HOL-Library.Char_ord" "HOL-Library.List_Lexorder"
begin

section \<open>Python strings and paths\<close>

text \<open>
  A Python \<open>str\<close> is modelled as a \<open>string\<close>: a list of characters, each a code point
  below 256. The exceptions the code can raise are values of \<open>py_error\<close>.
\<close>

datatype py_error = IndexError | KeyError | ValueError | FileNotFoundError

text \<open>\<open>xs[i]\<close> for a non-negative index: out of range raises \<open>IndexError\<close>.\<close>

definition getitem :: "'a list \<Rightarrow> nat \<Rightarrow> py_error + 'a" where
  "getitem xs i = (if i < length xs then Inr (xs ! i) else Inl IndexError)"

text \<open>\<open>str.isspace\<close> on one character: the code points below 256 that Python counts as
  whitespace (tab to carriage return, the four separators 0x1C to 0x1F, space, NEL and the
  no-break space).\<close>

definition isspace :: "char \<Rightarrow> bool" where
  "isspace c = (c \<in> set [CHR 0x09, CHR 0x0A, CHR 0x0B, CHR 0x0C, CHR 0x0D,
                           CHR 0x1C, CHR 0x1D, CHR 0x1E, CHR 0x1F, CHR 0x20,
                           CHR 0x85, CHR 0xA0])"

text \<open>\<open>s.strip()\<close>: whitespace removed at both ends.\<close>

definition strip :: "string \<Rightarrow> string" where
  "strip s = rev (dropWhile isspace (rev (dropWhile isspace s)))"

text \<open>\<open>s.split()\<close>: the maximal runs of non-whitespace characters, left to right.
  \<open>cur\<close> is the field being scanned.\<close>

fun split_scan :: "string \<Rightarrow> string \<Rightarrow> string list" where
  "split_scan cur [] = (if cur = [] then [] else [cur])"
| "split_scan cur (c # cs) =
     (if isspace c then (if cur = [] then split_scan [] cs else cur # split_scan [] cs)
      else split_scan (cur @ [c]) cs)"

definition split :: "string \<Rightarrow> string list" where
  "split s = split_scan [] s"

text \<open>\<open>line.startswith('#')\<close>.\<close>

definition startswith_hash :: "string \<Rightarrow> bool" where
  "startswith_hash line = (case line of [] \<Rightarrow> False | c # _ \<Rightarrow> c = CHR ''#'')"

text \<open>\<open>s.rfind(c)\<close>: the index of the last occurrence of \<open>c\<close>, or \<open>-1\<close>.\<close>

definition rfind :: "char \<Rightarrow> string \<Rightarrow> int" where
  "rfind c s = (if c \<in> set s then int (length s) - 1 - int (length (takeWhile (\<lambda>d. d \<noteq> c) (rev s)))
                else - 1)"

text \<open>\<open>os.path.basename\<close> (POSIX): \<open>i = p.rfind('/') + 1; return p[i:]\<close>.\<close>

definition basename :: "string \<Rightarrow> string" where
  "basename p = drop (nat (rfind CHR ''/'' p + 1)) p"

text \<open>\<open>os.path.splitext\<close> (POSIX): the extension starts at the last dot, when that dot
  comes after the last slash and some character between the two is not a dot.\<close>

definition splitext :: "string \<Rightarrow> string \<times> string" where
  "splitext p =
     (let sepIndex = rfind CHR ''/'' p;
          dotIndex = rfind CHR ''.'' p
      in if dotIndex > sepIndex \<and>
            list_ex (\<lambda>c. c \<noteq> CHR ''.'')
              (take (nat dotIndex - nat (sepIndex + 1)) (drop (nat (sepIndex + 1)) p))
         then (take (nat dotIndex) p, drop (nat dotIndex) p)
         else (p, []))"

text \<open>\<open>s.rsplit(sep, 1)\<close>: split once at the last occurrence of \<open>sep\<close>, if there is one.\<close>

definition rsplit1 :: "char \<Rightarrow> string \<Rightarrow> string list" where
  "rsplit1 sep s =
     (if sep \<in> set s
      then [take (nat (rfind sep s)) s, drop (nat (rfind sep s) + 1) s]
      else [s])"

section \<open>Shot numbers\<close>

text \<open>\<open>get_shot_number\<close>: the base name without its extension, cut at the last underscore
  when it has one. \<open>rsplit\<close> never returns an empty list, so \<open>[0]\<close> is \<open>hd\<close>.\<close>

definition get_shot_number :: "string \<Rightarrow> string" where
  "get_shot_number filename =
     (let basename = basename filename;
          name_no_ext = fst (splitext basename)
      in if CHR ''_'' \<in> set name_no_ext
         then hd (rsplit1 CHR ''_'' name_no_ext)
         else name_no_ext)"

section \<open>Filtering the pose records\<close>

text \<open>
  \<open>filter_images_txt\<close> reads the source file with \<open>readlines()\<close> and writes lines to the
  destination. The model takes the list of lines read and returns the lines written, in
  order, with the result: the count of kept entries, or the exception raised. The loop
  runs on the index \<open>i\<close>, as the source does.
\<close>

function filter_loop ::
  "string list \<Rightarrow> string set \<Rightarrow> nat \<Rightarrow> string list \<Rightarrow> nat \<Rightarrow> (py_error + nat) \<times> string list"
where
  "filter_loop lines selected_images i fout kept =
     (if i < length lines then
        (case getitem lines i of
           Inl e \<Rightarrow> (Inl e, fout)
         | Inr line \<Rightarrow>
             if startswith_hash line then
               filter_loop lines selected_images (i + 1) (fout @ [line]) kept
             else if strip line = [] then
               filter_loop lines selected_images (i + 1) fout kept
             else
               (let parts = split (strip line) in
                if length parts \<ge> 10 then
                  (case getitem parts 9 of
                     Inl e \<Rightarrow> (Inl e, fout)
                   | Inr img_name \<Rightarrow>
                       if img_name \<in> selected_images then
                         (if i + 1 < length lines then
                            (case getitem lines (i + 1) of
                               Inl e \<Rightarrow> (Inl e, fout @ [line])
                             | Inr points \<Rightarrow>
                                 filter_loop lines selected_images (i + 2)
                                   (fout @ [line] @ [points]) (kept + 1))
                          else filter_loop lines selected_images (i + 2) (fout @ [line]) (kept + 1))
                       else filter_loop lines selected_images (i + 2) fout kept)
                else filter_loop lines selected_images (i + 2) fout kept))
      else (Inr kept, fout))"
  by pat_completeness auto
termination
  by (relation "measure (\<lambda>(lines, sel, i, fout, kept). length lines - i)") auto

declare filter_loop.simps [simp del]

definition filter_images_txt :: "string list \<Rightarrow> string set \<Rightarrow> (py_error + nat) \<times> string list" where
  "filter_images_txt lines selected_images = filter_loop lines selected_images 0 [] 0"

section \<open>Grouping the images by shot\<close>

text \<open>
  The image tree below \<open>source/images\<close> is the list of its files, each a path relative to
  that directory with its content, in the order the file system enumerates them. A file's
  content is the list of its lines (a text file as \<open>readlines()\<close> returns it); copies are
  verbatim. Paths are POSIX strings; \<open>Path.name\<close> is the last component.
\<close>

type_synonym content = "string list"

definition path_name :: "string \<Rightarrow> string" where
  "path_name p = basename p"

text \<open>\<open>Path.parent\<close> of a relative path: all before the last slash (the empty path, for the
  directory itself, when there is none).\<close>

definition parent :: "string \<Rightarrow> string" where
  "parent p = take (nat (rfind CHR ''/'' p)) p"

definition endswith :: "string \<Rightarrow> string \<Rightarrow> bool" where
  "endswith s suffix = (length suffix \<le> length s \<and> drop (length s - length suffix) s = suffix)"

text \<open>\<open>Path(images_dir).rglob('*' + ext)\<close>: the files whose name ends with \<open>ext\<close>, compared
  case-sensitively.\<close>

definition rglob :: "(string \<times> content) list \<Rightarrow> string \<Rightarrow> string list" where
  "rglob tree ext = filter (\<lambda>p. endswith (path_name p) ext) (map fst tree)"

definition find_images :: "(string \<times> content) list \<Rightarrow> string list" where
  "find_images tree =
     concat (map (rglob tree) [''.png'', ''.jpg'', ''.jpeg'', ''.PNG'', ''.JPG'', ''.JPEG''])"

text \<open>\<open>group_by_shot\<close>: the dictionary \<open>shots\<close> is an association list in insertion order;
  a new shot number is added with an empty list, then the image is appended to its list.\<close>

fun group_by_shot_loop ::
  "string list \<Rightarrow> (string \<times> string list) list \<Rightarrow> (string \<times> string list) list" where
  "group_by_shot_loop [] shots = shots"
| "group_by_shot_loop (img_path # rest) shots =
     (let shot_num = get_shot_number (path_name img_path);
          shots1 = (if map_of shots shot_num = None then shots @ [(shot_num, [])] else shots)
      in group_by_shot_loop rest
           (map (\<lambda>(k, v). if k = shot_num then (k, v @ [img_path]) else (k, v)) shots1))"

definition group_by_shot :: "string list \<Rightarrow> (string \<times> string list) list" where
  "group_by_shot image_files = group_by_shot_loop image_files []"

section \<open>Selecting the shots\<close>

text \<open>
  \<open>xs[start::step]\<close> with integer \<open>start\<close> and \<open>step\<close>, as CPython computes it: a zero step
  raises \<open>ValueError\<close>; otherwise \<open>start\<close> is adjusted to the length of the list, the stop
  is the end in the direction of the step, and the result holds \<open>slicelength\<close> elements
  read at \<open>start\<close>, \<open>start + step\<close>, and so on.
\<close>

definition adjust_start :: "int \<Rightarrow> int \<Rightarrow> int \<Rightarrow> int" where
  "adjust_start len start step =
     (if start < 0
      then (if start + len < 0 then (if step < 0 then - 1 else 0) else start + len)
      else if start \<ge> len then (if step < 0 then len - 1 else len)
      else start)"

definition slice_length :: "int \<Rightarrow> int \<Rightarrow> int \<Rightarrow> int" where
  "slice_length start1 stop1 step =
     (if step < 0
      then (if stop1 < start1 then (start1 - stop1 - 1) div (- step) + 1 else 0)
      else (if start1 < stop1 then (stop1 - start1 - 1) div step + 1 else 0))"

definition slice_from :: "'a list \<Rightarrow> int \<Rightarrow> int \<Rightarrow> py_error + 'a list" where
  "slice_from xs start step =
     (if step = 0 then Inl ValueError
      else
        (let len = int (length xs);
             start1 = adjust_start len start step;
             stop1 = (if step < 0 then - 1 else len);
             slicelength = slice_length start1 stop1 step
         in Inr (map (\<lambda>k. xs ! nat (start1 + int k * step)) [0..<nat slicelength])))"

text \<open>Lines 161 to 165 of \<open>main\<close>: group, sort the shot numbers, slice.\<close>

definition select_shots :: "string list \<Rightarrow> int \<Rightarrow> int \<Rightarrow> py_error + string list" where
  "select_shots image_files offset keep_every =
     (let shots = group_by_shot image_files;
          sorted_shots = sort (map fst shots)
      in slice_from sorted_shots offset keep_every)"

text \<open>Lines 175 to 181: the relative paths and the names of the images of the selected
  shots. \<open>shots[shot]\<close> raises \<open>KeyError\<close> for a missing key.\<close>

fun collect_selected ::
  "(string \<times> string list) list \<Rightarrow> string list \<Rightarrow> string set \<times> string set
     \<Rightarrow> py_error + string set \<times> string set" where
  "collect_selected shots [] acc = Inr acc"
| "collect_selected shots (shot # rest) acc =
     (case map_of shots shot of
        None \<Rightarrow> Inl KeyError
      | Some imgs \<Rightarrow>
          collect_selected shots rest
            (fold (\<lambda>img_path (rels, names). (insert img_path rels, insert (path_name img_path) names))
               imgs acc))"

section \<open>The program\<close>

text \<open>
  The source dataset as \<open>main\<close> reads it, and the output directory as it writes it: the
  directories created (paths relative to the output directory, the empty path for itself),
  the files written, and the messages printed.
\<close>

record args =
  keep_every :: int
  offset :: int

record source_fs =
  source_exists :: bool
  images :: "(string \<times> content) list option"
  sparse_0 :: "(string \<rightharpoonup> content) option"
  sparse :: "(string \<rightharpoonup> content) option"

datatype message =
    ErrorSourceMissing
  | ErrorImagesDirMissing
  | Scanning
  | ErrorNoImages
  | Statistics nat nat nat int nat
  | SelectedImages nat
  | CopyingImages
  | CopiedImages nat
  | WarningNoSparse
  | ProcessingColmap
  | CopiedFile string
  | FilteredImagesTxt nat
  | WarningImagesBin
  | Summary nat int

record out_state =
  dirs :: "string set"
  files :: "string \<rightharpoonup> content"
  log :: "message list"

datatype outcome = Returned | SysExit nat | Uncaught py_error

definition print :: "message \<Rightarrow> out_state \<Rightarrow> out_state" where
  "print m st = st\<lparr>log := log st @ [m]\<rparr>"

text \<open>\<open>mkdir(parents=True, exist_ok=True)\<close>: the directory and every directory above it.\<close>

definition mkdir_parents :: "string \<Rightarrow> out_state \<Rightarrow> out_state" where
  "mkdir_parents d st =
     st\<lparr>dirs := dirs st \<union> {d, []} \<union> set [take i d. i \<leftarrow> [0..<length d], d ! i = CHR ''/'']\<rparr>"

definition copy2 :: "content \<Rightarrow> string \<Rightarrow> out_state \<Rightarrow> out_state" where
  "copy2 data dst st = st\<lparr>files := (files st)(dst \<mapsto> data)\<rparr>"

text \<open>Lines 193 to 197: copy each selected image to the same relative path.\<close>

fun copy_images ::
  "(string \<times> content) list \<Rightarrow> string list \<Rightarrow> out_state \<Rightarrow> py_error option \<times> out_state" where
  "copy_images tree [] st = (None, st)"
| "copy_images tree (img_rel # rest) st =
     (let dst_img = ''images/'' @ img_rel;
          st1 = mkdir_parents (parent dst_img) st
      in case map_of tree img_rel of
           None \<Rightarrow> (Some FileNotFoundError, st1)
         | Some data \<Rightarrow> copy_images tree rest (copy2 data dst_img st1))"

text \<open>Lines 214 to 219: the first camera file that exists is copied.\<close>

fun copy_cameras :: "(string \<rightharpoonup> content) \<Rightarrow> string list \<Rightarrow> out_state \<Rightarrow> out_state" where
  "copy_cameras d [] st = st"
| "copy_cameras d (cameras_file # rest) st =
     (case d cameras_file of
        Some data \<Rightarrow> print (CopiedFile cameras_file) (copy2 data (''sparse/0/'' @ cameras_file) st)
      | None \<Rightarrow> copy_cameras d rest st)"

text \<open>Lines 239 to 243: every points file that exists is copied.\<close>

fun copy_points :: "(string \<rightharpoonup> content) \<Rightarrow> string list \<Rightarrow> out_state \<Rightarrow> out_state" where
  "copy_points d [] st = st"
| "copy_points d (points_file # rest) st =
     (case d points_file of
        Some data \<Rightarrow>
          copy_points d rest (print (CopiedFile points_file) (copy2 data (''sparse/0/'' @ points_file) st))
      | None \<Rightarrow> copy_points d rest st)"

text \<open>Lines 222 to 236: the text pose file is filtered into the output; a binary pose file
  alone is only reported.\<close>

definition filter_poses ::
  "(string \<rightharpoonup> content) \<Rightarrow> string set \<Rightarrow> out_state \<Rightarrow> py_error option \<times> out_state" where
  "filter_poses d selected st =
     (case d ''images.txt'' of
        Some lines \<Rightarrow>
          (case filter_images_txt lines selected of
             (Inl e, written) \<Rightarrow> (Some e, copy2 written ''sparse/0/images.txt'' st)
           | (Inr kept, written) \<Rightarrow>
               (None, print (FilteredImagesTxt kept) (copy2 written ''sparse/0/images.txt'' st)))
      | None \<Rightarrow>
          (if d ''images.bin'' \<noteq> None then (None, print WarningImagesBin st) else (None, st)))"

text \<open>Lines 201 to 203: \<open>source/sparse/0\<close> if it exists, else \<open>source/sparse\<close>.\<close>

definition sparse_dir :: "source_fs \<Rightarrow> (string \<rightharpoonup> content) option" where
  "sparse_dir fs = (case sparse_0 fs of Some d \<Rightarrow> Some d | None \<Rightarrow> sparse fs)"

text \<open>Lines 200 to 254: the sparse data, after the images are copied.\<close>

definition process_sparse ::
  "args \<Rightarrow> source_fs \<Rightarrow> string set \<Rightarrow> string set \<Rightarrow> out_state \<Rightarrow> outcome \<times> out_state" where
  "process_sparse a fs selected_images_rel selected_images_names st =
     (case sparse_dir fs of
        None \<Rightarrow> (Returned, print WarningNoSparse st)
      | Some d \<Rightarrow>
          (let st1 = print ProcessingColmap st;
               st2 = copy_cameras d [''cameras.txt'', ''cameras.bin''] st1
           in case filter_poses d (selected_images_rel \<union> selected_images_names) st2 of
                (Some e, st3) \<Rightarrow> (Uncaught e, st3)
              | (None, st3) \<Rightarrow>
                  (Returned,
                   print (Summary (card selected_images_rel) (keep_every a))
                     (copy_points d [''points3D.txt'', ''points3D.bin'', ''points3D.ply''] st3))))"

definition main :: "args \<Rightarrow> source_fs \<Rightarrow> out_state \<Rightarrow> outcome \<times> out_state" where
  "main a fs st0 =
     (if \<not> source_exists fs then (SysExit 1, print ErrorSourceMissing st0)
      else case images fs of
        None \<Rightarrow> (SysExit 1, print ErrorImagesDirMissing st0)
      | Some tree \<Rightarrow>
          (let st1 = print Scanning st0;
               image_files = find_images tree
           in if image_files = [] then (SysExit 1, print ErrorNoImages st1)
              else
                (let shots = group_by_shot image_files;
                     sorted_shots = sort (map fst shots)
                 in case select_shots image_files (offset a) (keep_every a) of
                      Inl e \<Rightarrow> (Uncaught e, st1)
                    | Inr selected_shots \<Rightarrow>
                        (let st2 = print (Statistics (length image_files) (length sorted_shots)
                                     (length image_files div length sorted_shots)
                                     (keep_every a) (length selected_shots)) st1
                         in case collect_selected shots selected_shots ({}, {}) of
                              Inl e \<Rightarrow> (Uncaught e, st2)
                            | Inr (selected_images_rel, selected_images_names) \<Rightarrow>
                                (let st3 = print (SelectedImages (card selected_images_rel)) st2;
                                     st4 = mkdir_parents ''sparse/0'' (mkdir_parents ''images'' st3);
                                     st5 = print CopyingImages st4
                                 in case copy_images tree
                                           (sorted_list_of_set selected_images_rel) st5 of
                                      (Some e, st6) \<Rightarrow> (Uncaught e, st6)
                                    | (None, st6) \<Rightarrow>
                                        process_sparse a fs selected_images_rel
                                          selected_images_names
                                          (print (CopiedImages (card selected_images_rel)) st6))))))"

section \<open>The pose file format\<close>

text \<open>
  A well-formed pose file is a sequence of comment lines, blank lines and entries; an entry
  is a header line and the line after it, whatever that line holds (the list of points may
  be empty). The lines of the file are those of its items, in order.
\<close>

datatype item = Comment string | Blank string | Entry string string

fun render_item :: "item \<Rightarrow> string list" where
  "render_item (Comment c) = [c]"
| "render_item (Blank b) = [b]"
| "render_item (Entry h p) = [h, p]"

definition render :: "item list \<Rightarrow> string list" where
  "render items = concat (map render_item items)"

text \<open>A comment starts with the marker; a blank line holds only whitespace; a header is
  neither.\<close>

fun wf_item :: "item \<Rightarrow> bool" where
  "wf_item (Comment c) = startswith_hash c"
| "wf_item (Blank b) = (\<not> startswith_hash b \<and> strip b = [])"
| "wf_item (Entry h p) = (\<not> startswith_hash h \<and> strip h \<noteq> [])"

text \<open>The NAME of a header: its 10th whitespace-separated field, if it has one.\<close>

definition image_name :: "string \<Rightarrow> string option" where
  "image_name header =
     (let fields = split header in if length fields \<ge> 10 then Some (fields ! 9) else None)"

definition retained_header :: "string set \<Rightarrow> string \<Rightarrow> bool" where
  "retained_header selected header =
     (case image_name header of None \<Rightarrow> False | Some n \<Rightarrow> n \<in> selected)"

fun retained :: "string set \<Rightarrow> item \<Rightarrow> bool" where
  "retained selected (Entry h p) = retained_header selected h"
| "retained selected (Comment c) = False"
| "retained selected (Blank b) = False"

text \<open>What the filtered file is to hold for an item: a comment as it is, nothing for a
  blank line, both lines of an entry whose NAME is retained.\<close>

fun expected_lines :: "string set \<Rightarrow> item \<Rightarrow> string list" where
  "expected_lines selected (Comment c) = [c]"
| "expected_lines selected (Blank b) = []"
| "expected_lines selected (Entry h p) = (if retained_header selected h then [h, p] else [])"

section \<open>Shots and selections\<close>

text \<open>The shot of an image path, the shot ids of a list of images, and the images a
  dictionary of shots holds for a key.\<close>

definition shot_of :: "string \<Rightarrow> string" where
  "shot_of img_path = get_shot_number (path_name img_path)"

definition shot_ids :: "string list \<Rightarrow> string set" where
  "shot_ids image_files = shot_of ` set image_files"

definition images_of :: "(string \<times> string list) list \<Rightarrow> string \<Rightarrow> string set" where
  "images_of shots k = (case map_of shots k of None \<Rightarrow> {} | Some v \<Rightarrow> set v)"

text \<open>
  The selection as the specification words it: sort the ids ascending, then take every
  \<open>n\<close>-th id starting at index \<open>off\<close>.
\<close>

fun every_nth :: "nat \<Rightarrow> 'a list \<Rightarrow> 'a list" where
  "every_nth n [] = []"
| "every_nth n (x # xs) = x # every_nth n (drop (n - 1) xs)"

definition sorted_stride :: "string set \<Rightarrow> nat \<Rightarrow> nat \<Rightarrow> string list" where
  "sorted_stride ids off n = every_nth n (drop off (sorted_list_of_set ids))"

text \<open>The images of the selected shots.\<close>

definition selected_rel :: "string list \<Rightarrow> string list \<Rightarrow> string set" where
  "selected_rel image_files selected_shots =
     {p \<in> set image_files. shot_of p \<in> set selected_shots}"

section \<open>Full selections and example datasets\<close>

text \<open>The names by which a pose entry can refer to an image that exists under the image
  root: its relative path or its file name.\<close>

definition existing_images :: "(string \<times> content) list \<Rightarrow> string set" where
  "existing_images tree = set (find_images tree) \<union> path_name ` set (find_images tree)"

text \<open>An item that a filter retaining these names leaves as it is: a comment, or an entry
  whose NAME is retained. A blank line is not.\<close>

fun verbatim_item :: "string set \<Rightarrow> item \<Rightarrow> bool" where
  "verbatim_item selected (Comment c) = True"
| "verbatim_item selected (Blank b) = False"
| "verbatim_item selected (Entry h p) = retained_header selected h"

text \<open>An empty output directory, and small source datasets: one image without sparse
  data; the same with a text pose file ending in a blank line; with a pose file of a
  comment and one entry; with only the binary pose file; and three images of two shots.\<close>

definition empty_out :: out_state where
  "empty_out = \<lparr>dirs = {}, files = Map.empty, log = []\<rparr>"

definition one_image :: source_fs where
  "one_image = \<lparr>source_exists = True, images = Some [(''000001_0.png'', [''pixels''])],
                 sparse_0 = None, sparse = None\<rparr>"

definition posed_image :: source_fs where
  "posed_image =
     \<lparr>source_exists = True, images = Some [(''000001_0.png'', [''pixels''])],
      sparse_0 = Some [''images.txt'' \<mapsto>
                    [''1 0 0 0 0 0 0 0 1 000001_0.png'', ''10 20 5'', [CHR 0x0A]]],
      sparse = None\<rparr>"

definition posed_pair :: source_fs where
  "posed_pair =
     \<lparr>source_exists = True, images = Some [(''000001_0.png'', [''pixels''])],
      sparse_0 = Some [''images.txt'' \<mapsto>
                    [''# pose file'', ''1 0 0 0 0 0 0 0 1 000001_0.png'', ''10 20 5'']],
      sparse = None\<rparr>"

definition binary_only :: source_fs where
  "binary_only =
     \<lparr>source_exists = True, images = Some [(''000001_0.png'', [''pixels''])],
      sparse_0 = Some [''images.bin'' \<mapsto> [''binary'']], sparse = None\<rparr>"

definition two_shots :: source_fs where
  "two_shots =
     \<lparr>source_exists = True,
      images = Some [(''000001_0.png'', [''left'']), (''000002_0.png'', [''other'']),
                     (''000001_1.png'', [''right''])],
      sparse_0 = None, sparse = None\<rparr>"

section \<open>Facts about the string functions\<close>

lemma rfind_last: "c \<notin> set t \<Longrightarrow> rfind c (s @ c # t) = int (length s)"
proof -
  assume a: "c \<notin> set t"
  have "takeWhile (\<lambda>d. d \<noteq> c) (rev t @ c # rev s) = rev t"
    using a by (subst takeWhile_append2) auto
  then show ?thesis by (simp add: rfind_def)
qed

lemma rfind_none: "c \<notin> set s \<Longrightarrow> rfind c s = - 1"
  by (simp add: rfind_def)

lemma basename_no_slash: "CHR ''/'' \<notin> set p \<Longrightarrow> basename p = p"
  by (simp add: basename_def rfind_none)

lemma splitext_stem:
  assumes "CHR ''/'' \<notin> set stem" "CHR ''.'' \<notin> set ext" "CHR ''/'' \<notin> set ext"
    and "\<exists>c \<in> set stem. c \<noteq> CHR ''.''"
  shows "splitext (stem @ CHR ''.'' # ext) = (stem, CHR ''.'' # ext)"
proof -
  have sep: "rfind CHR ''/'' (stem @ CHR ''.'' # ext) = - 1"
    using assms by (simp add: rfind_none)
  have dot: "rfind CHR ''.'' (stem @ CHR ''.'' # ext) = int (length stem)"
    using assms by (simp add: rfind_last)
  show ?thesis
    unfolding splitext_def sep dot using assms(4) by (simp add: list_ex_iff)
qed

lemma rsplit1_nonempty: "rsplit1 sep s \<noteq> []"
  by (simp add: rsplit1_def)

lemma hd_rsplit1: "sep \<notin> set t \<Longrightarrow> hd (rsplit1 sep (s @ sep # t)) = s"
  by (simp add: rsplit1_def rfind_last)

text \<open>A name \<open>S_L.ext\<close>, with no underscore in \<open>L\<close> and no dot in \<open>ext\<close>, has shot
  number \<open>S\<close>.\<close>

lemma get_shot_number_lens:
  assumes "CHR ''/'' \<notin> set S" "CHR ''/'' \<notin> set L" "CHR ''_'' \<notin> set L"
    and "CHR ''.'' \<notin> set ext" "CHR ''/'' \<notin> set ext"
  shows "get_shot_number (S @ ''_'' @ L @ ''.'' @ ext) = S"
proof -
  let ?stem = "S @ CHR ''_'' # L"
  have b: "basename (?stem @ CHR ''.'' # ext) = ?stem @ CHR ''.'' # ext"
    using assms by (simp add: basename_no_slash)
  have s: "splitext (?stem @ CHR ''.'' # ext) = (?stem, CHR ''.'' # ext)"
    using assms by (intro splitext_stem) auto
  have "get_shot_number (?stem @ CHR ''.'' # ext) = S"
    using assms(3) by (simp only: get_shot_number_def b s Let_def fst_conv) (simp add: hd_rsplit1)
  then show ?thesis by simp
qed

lemma split_scan_spaces:
  "\<forall>c \<in> set ws. isspace c \<Longrightarrow> split_scan cur ws = (if cur = [] then [] else [cur])"
  by (induction ws arbitrary: cur) auto

lemma split_scan_trailing:
  "\<forall>c \<in> set ws. isspace c \<Longrightarrow> split_scan cur (s @ ws) = split_scan cur s"
  by (induction s arbitrary: cur) (auto simp: split_scan_spaces)

lemma split_scan_leading: "split_scan [] (dropWhile isspace s) = split_scan [] s"
  by (induction s) auto

lemma rstrip_decomp: "s = rev (dropWhile P (rev s)) @ rev (takeWhile P (rev s))"
  by (metis rev_append rev_rev_ident takeWhile_dropWhile_id)

text \<open>The fields of a line are those of the stripped line.\<close>

lemma split_strip: "split (strip s) = split s"
proof -
  let ?t = "dropWhile isspace s"
  have "split_scan [] ?t =
        split_scan [] (rev (dropWhile isspace (rev ?t)) @ rev (takeWhile isspace (rev ?t)))"
    using rstrip_decomp[of ?t isspace] by simp
  also have "\<dots> = split_scan [] (rev (dropWhile isspace (rev ?t)))"
    by (rule split_scan_trailing) (auto dest: set_takeWhileD)
  finally show ?thesis
    by (simp add: split_def strip_def split_scan_leading)
qed

section \<open>Facts about the filter loop\<close>

lemma filter_loop_end:
  "length lines \<le> i \<Longrightarrow> filter_loop lines sel i fout kept = (Inr kept, fout)"
  by (subst filter_loop.simps) simp

lemma step_comment:
  "startswith_hash c \<Longrightarrow>
   filter_loop (pre @ c # rest) sel (length pre) fout kept =
   filter_loop (pre @ c # rest) sel (Suc (length pre)) (fout @ [c]) kept"
  by (subst filter_loop.simps) (simp add: getitem_def)

lemma step_blank:
  "\<not> startswith_hash b \<Longrightarrow> strip b = [] \<Longrightarrow>
   filter_loop (pre @ b # rest) sel (length pre) fout kept =
   filter_loop (pre @ b # rest) sel (Suc (length pre)) fout kept"
  by (subst filter_loop.simps) (simp add: getitem_def)

lemma step_entry:
  "\<not> startswith_hash h \<Longrightarrow> strip h \<noteq> [] \<Longrightarrow>
   filter_loop (pre @ h # p # rest) sel (length pre) fout kept =
   filter_loop (pre @ h # p # rest) sel (length pre + 2)
     (fout @ (if retained_header sel h then [h, p] else []))
     (kept + (if retained_header sel h then 1 else 0))"
  by (subst filter_loop.simps)
    (simp add: getitem_def split_strip retained_header_def image_name_def Let_def nth_append)

lemma step_last:
  "\<not> startswith_hash h \<Longrightarrow> strip h \<noteq> [] \<Longrightarrow>
   filter_loop (pre @ [h]) sel (length pre) fout kept =
     (Inr (kept + (if retained_header sel h then 1 else 0)),
      fout @ (if retained_header sel h then [h] else []))"
  by (subst filter_loop.simps)
    (simp add: getitem_def split_strip retained_header_def image_name_def Let_def filter_loop_end)

text \<open>The loop, started at the first line of a run of well-formed items, reaches the line
  after them with the expected lines written and the retained entries counted.\<close>

lemma filter_loop_items:
  "\<forall>it \<in> set items. wf_item it \<Longrightarrow>
   filter_loop (pre @ render items @ suf) sel (length pre) fout kept =
   filter_loop (pre @ render items @ suf) sel (length pre + length (render items))
     (fout @ concat (map (expected_lines sel) items))
     (kept + length (filter (retained sel) items))"
proof (induction items arbitrary: pre fout kept)
  case Nil
  then show ?case by (simp add: render_def)
next
  case (Cons it items)
  have wf: "\<forall>it \<in> set items. wf_item it" using Cons.prems by simp
  show ?case
  proof (cases it)
    case (Comment c)
    have "filter_loop (pre @ render (it # items) @ suf) sel (length pre) fout kept =
          filter_loop ((pre @ [c]) @ render items @ suf) sel (length (pre @ [c])) (fout @ [c]) kept"
      using Cons.prems Comment step_comment[of c pre "render items @ suf" sel fout kept]
      by (simp add: render_def)
    also note Cons.IH[OF wf, of "pre @ [c]" "fout @ [c]" kept]
    finally show ?thesis using Comment by (simp add: render_def)
  next
    case (Blank b)
    have "filter_loop (pre @ render (it # items) @ suf) sel (length pre) fout kept =
          filter_loop ((pre @ [b]) @ render items @ suf) sel (length (pre @ [b])) fout kept"
      using Cons.prems Blank step_blank[of b pre "render items @ suf" sel fout kept]
      by (simp add: render_def)
    also note Cons.IH[OF wf, of "pre @ [b]" fout kept]
    finally show ?thesis using Blank by (simp add: render_def)
  next
    case (Entry h p)
    let ?f = "fout @ (if retained_header sel h then [h, p] else [])"
    let ?k = "kept + (if retained_header sel h then 1 else 0)"
    have "filter_loop (pre @ render (it # items) @ suf) sel (length pre) fout kept =
          filter_loop ((pre @ [h, p]) @ render items @ suf) sel (length (pre @ [h, p])) ?f ?k"
      using Cons.prems Entry step_entry[of h pre p "render items @ suf" sel fout kept]
      by (simp add: render_def)
    also note Cons.IH[OF wf, of "pre @ [h, p]" ?f ?k]
    finally show ?thesis using Entry by (simp add: render_def)
  qed
qed

lemma filter_images_txt_render:
  assumes "\<forall>it \<in> set items. wf_item it"
  shows "filter_images_txt (render items) sel =
           (Inr (length (filter (retained sel) items)), concat (map (expected_lines sel) items))"
  using filter_loop_items[OF assms, of "[]" "[]" sel "[]" 0]
  by (simp add: filter_images_txt_def filter_loop_end)

lemma filter_images_txt_render_truncated:
  assumes "\<forall>it \<in> set items. wf_item it" "\<not> startswith_hash h" "strip h \<noteq> []"
  shows "filter_images_txt (render items @ [h]) sel =
           (Inr (length (filter (retained sel) items) + (if retained_header sel h then 1 else 0)),
            concat (map (expected_lines sel) items) @ (if retained_header sel h then [h] else []))"
  using filter_loop_items[OF assms(1), of "[]" "[h]" sel "[]" 0]
    step_last[OF assms(2,3), of "render items" sel]
  by (simp add: filter_images_txt_def)

text \<open>No read of the loop is out of range: it never raises.\<close>

lemma filter_loop_total: "\<exists>k. fst (filter_loop lines sel i fout kept) = Inr k"
proof (induction lines sel i fout kept rule: filter_loop.induct)
  case (1 lines sel i fout kept)
  show ?case
    apply (subst filter_loop.simps)
    using 1
    by (auto simp: getitem_def Let_def)
qed

lemma filter_images_txt_total: "\<exists>k. fst (filter_images_txt lines sel) = Inr k"
  by (simp add: filter_images_txt_def filter_loop_total)

lemma render_append: "render (xs @ ys) = render xs @ render ys"
  by (simp add: render_def)

section \<open>Properties of \<open>get_shot_number\<close> and \<open>filter_images_txt\<close>\<close>

text \<open>
  Claim C2. For a name \<open>S_L.ext\<close> the shot number is \<open>S\<close> (lemma \<open>get_shot_number_lens\<close>),
  and the docstring of \<open>get_shot_number\<close> gives \<open>IMG_0001\<close> as the shot number of
  \<open>IMG_0001.jpg\<close>. The code cuts that name at its underscore too: it returns \<open>IMG\<close>.
\<close>

theorem get_shot_number_IMG_0001: "get_shot_number ''IMG_0001.jpg'' = ''IMG''"
  by (simp add: get_shot_number_def basename_def splitext_def rfind_def rsplit1_def)

text \<open>
  Claim C1. For every well-formed pose file and every set of retained names,
  \<open>filter_images_txt\<close> writes exactly the entries whose NAME (the 10th field of the header)
  is in the set, each as its header followed by its continuation line, with the comment
  lines unchanged and everything in the original order, and it returns the number of
  retained entries.
\<close>

theorem filter_images_txt_exact:
  assumes "\<forall>it \<in> set items. wf_item it"
  shows "filter_images_txt (render items) selected =
           (Inr (length (filter (retained selected) items)),
            concat (map (expected_lines selected) items))"
  using assms by (rule filter_images_txt_render)

theorem filter_images_txt_exact_witness:
  "filter_images_txt
     [''# pose file'', ''1 0 0 0 0 0 0 0 1 a.png'', ''10 20 5'', ''2 0 0 0 0 0 0 0 1 b.png'', '''']
     {''b.png''}
   = (Inr 1, [''# pose file'', ''2 0 0 0 0 0 0 0 1 b.png'', ''''])"
  using filter_images_txt_exact
    [of "[Comment ''# pose file'', Entry ''1 0 0 0 0 0 0 0 1 a.png'' ''10 20 5'',
          Entry ''2 0 0 0 0 0 0 0 1 b.png'' '''']" "{''b.png''}"]
  by (simp add: render_def startswith_hash_def strip_def isspace_def retained_header_def
      image_name_def split_def)

text \<open>
  Claim C4, as stated: blank lines are preserved verbatim in the filtered output. They are
  not: a pose file with a blank line after its comment is filtered to a file without it.
\<close>

theorem blank_line_not_preserved:
  "[CHR 0x0A] \<in> set [''# pose file'', [CHR 0x0A], ''1 0 0 0 0 0 0 0 1 a.png'', ''10 20 5''] \<and>
   [CHR 0x0A] \<notin> set (snd (filter_images_txt
       [''# pose file'', [CHR 0x0A], ''1 0 0 0 0 0 0 0 1 a.png'', ''10 20 5''] {''a.png''}))"
  by (simp add: filter_images_txt_def filter_loop.simps getitem_def startswith_hash_def
      strip_def isspace_def split_def)

text \<open>
  Claim C4, amended. A comment line between two runs of items is written verbatim, in its
  place; a blank line there is dropped from the output; in both cases the items before and
  after are filtered as they are without the line, so neither line counts against the
  pairing of headers and continuation lines.
\<close>

theorem comment_and_blank_lines_structural:
  assumes "\<forall>it \<in> set before. wf_item it" and "\<forall>it \<in> set after. wf_item it"
  shows "\<exists>kb ka wb wa.
           filter_images_txt (render before) sel = (Inr kb, wb) \<and>
           filter_images_txt (render after) sel = (Inr ka, wa) \<and>
           (startswith_hash l \<longrightarrow>
              filter_images_txt (render before @ l # render after) sel
                = (Inr (kb + ka), wb @ l # wa)) \<and>
           (\<not> startswith_hash l \<and> strip l = [] \<longrightarrow>
              filter_images_txt (render before @ l # render after) sel
                = (Inr (kb + ka), wb @ wa))"
proof -
  have c: "filter_images_txt (render before @ l # render after) sel
             = (Inr (length (filter (retained sel) before) + length (filter (retained sel) after)),
                concat (map (expected_lines sel) before) @ l # concat (map (expected_lines sel) after))"
    if "startswith_hash l"
    using filter_images_txt_render[of "before @ Comment l # after" sel] assms that
    by (simp add: render_def ball_Un)
  have b: "filter_images_txt (render before @ l # render after) sel
             = (Inr (length (filter (retained sel) before) + length (filter (retained sel) after)),
                concat (map (expected_lines sel) before) @ concat (map (expected_lines sel) after))"
    if "\<not> startswith_hash l" "strip l = []"
    using filter_images_txt_render[of "before @ Blank l # after" sel] assms that
    by (simp add: render_def ball_Un)
  show ?thesis
    using filter_images_txt_render[OF assms(1), of sel] filter_images_txt_render[OF assms(2), of sel]
      b c by simp
qed

theorem comment_and_blank_lines_structural_witness:
  "(\<exists>kb ka wb wa.
     filter_images_txt [''1 0 0 0 0 0 0 0 1 a.png'', ''10 20 5''] {''a.png''} = (Inr kb, wb) \<and>
     filter_images_txt [''2 0 0 0 0 0 0 0 1 b.png'', ''''] {''a.png''} = (Inr ka, wa) \<and>
     filter_images_txt [''1 0 0 0 0 0 0 0 1 a.png'', ''10 20 5'', ''# note'',
                        ''2 0 0 0 0 0 0 0 1 b.png'', ''''] {''a.png''}
       = (Inr (kb + ka), wb @ ''# note'' # wa)) \<and>
   (\<exists>kb ka wb wa.
     filter_images_txt [''1 0 0 0 0 0 0 0 1 a.png'', ''10 20 5''] {''a.png''} = (Inr kb, wb) \<and>
     filter_images_txt [''2 0 0 0 0 0 0 0 1 b.png'', ''''] {''a.png''} = (Inr ka, wa) \<and>
     filter_images_txt [''1 0 0 0 0 0 0 0 1 a.png'', ''10 20 5'', [CHR 0x0A],
                        ''2 0 0 0 0 0 0 0 1 b.png'', ''''] {''a.png''}
       = (Inr (kb + ka), wb @ wa))"
  using comment_and_blank_lines_structural
    [where before = "[Entry ''1 0 0 0 0 0 0 0 1 a.png'' ''10 20 5'']"
       and after = "[Entry ''2 0 0 0 0 0 0 0 1 b.png'' '''']"
       and l = "''# note''" and sel = "{''a.png''}"]
    comment_and_blank_lines_structural
    [where before = "[Entry ''1 0 0 0 0 0 0 0 1 a.png'' ''10 20 5'']"
       and after = "[Entry ''2 0 0 0 0 0 0 0 1 b.png'' '''']"
       and l = "[CHR 0x0A]" and sel = "{''a.png''}"]
  by (simp add: render_def startswith_hash_def strip_def isspace_def)

text \<open>
  Claim C10. \<open>filter_images_txt\<close> never reads past the end of its input: no run raises
  \<open>IndexError\<close>. When the last line is a retained header with no line after it, the header
  is written without a continuation line and the entry is still counted.
\<close>

theorem truncated_last_header_guarded:
  "(\<exists>k. fst (filter_images_txt lines selected) = Inr k) \<and>
   ((\<forall>it \<in> set items. wf_item it) \<and> \<not> startswith_hash h \<and> strip h \<noteq> [] \<and>
      retained_header selected h \<longrightarrow>
    filter_images_txt (render items @ [h]) selected =
      (Inr (length (filter (retained selected) items) + 1),
       concat (map (expected_lines selected) items) @ [h]))"
  using filter_images_txt_total[of lines selected]
    filter_images_txt_render_truncated[of items h selected]
  by auto

theorem truncated_last_header_guarded_witness:
  "filter_images_txt [''# pose file'', ''1 0 0 0 0 0 0 0 1 a.png''] {''a.png''} =
     (Inr 1, [''# pose file'', ''1 0 0 0 0 0 0 0 1 a.png''])"
  using truncated_last_header_guarded
    [where lines = "[]" and items = "[Comment ''# pose file'']"
       and h = "''1 0 0 0 0 0 0 0 1 a.png''" and selected = "{''a.png''}"]
  by (simp add: render_def startswith_hash_def strip_def isspace_def retained_header_def
      image_name_def split_def)

section \<open>Facts about stride slices\<close>

lemma div_add_stride: "0 < n \<Longrightarrow> (m + n) div n = Suc (m div (n::nat))"
  using div_add_self2[of n m] by simp

lemma every_nth_map:
  "1 \<le> n \<Longrightarrow> every_nth n ys = map (\<lambda>k. ys ! (k * n)) [0..<(length ys + n - 1) div n]"
proof (induction n ys rule: every_nth.induct)
  case (1 n)
  then show ?case by simp
next
  case (2 n x xs)
  let ?d = "drop (n - 1) xs"
  have len: "(length ?d + n - 1) div n = length xs div n"
    using 2(2) by (cases "n - 1 \<le> length xs") auto
  have "0 < n" using 2(2) by simp
  then have "(length xs + n) div n = Suc (length xs div n)"
    by (rule div_add_stride)
  then have "(length (x # xs) + n - 1) div n = Suc (length xs div n)"
    by simp
  then have "map (\<lambda>k. (x # xs) ! (k * n)) [0..<(length (x # xs) + n - 1) div n]
        = x # map (\<lambda>k. (x # xs) ! (Suc k * n)) [0..<length xs div n]"
    by (simp add: map_upt_Suc del: upt_Suc)
  also have "map (\<lambda>k. (x # xs) ! (Suc k * n)) [0..<length xs div n]
        = map (\<lambda>k. ?d ! (k * n)) [0..<length xs div n]"
  proof (rule map_cong[OF refl])
    fix k assume "k \<in> set [0..<length xs div n]"
    then have k: "k < length xs div n" by simp
    then have "Suc k * n \<le> (length xs div n) * n"
      by (intro mult_le_mono1) simp
    also have "\<dots> \<le> length xs" by (rule div_times_less_eq_dividend)
    finally have "Suc k * n \<le> length xs" .
    then have le: "n - 1 \<le> length xs" by simp
    have "Suc k * n = Suc (n - 1 + k * n)" using 2(2) by simp
    then show "(x # xs) ! (Suc k * n) = ?d ! (k * n)"
      using le by simp
  qed
  finally show ?case using 2 len by simp
qed

lemma slice_from_forward:
  assumes "1 \<le> step" "0 \<le> start"
  shows "slice_from xs start step = Inr (every_nth (nat step) (drop (nat start) xs))"
proof (cases "start \<ge> int (length xs)")
  case True
  then show ?thesis using assms by (simp add: slice_from_def adjust_start_def slice_length_def Let_def)
next
  case False
  let ?n = "nat step" and ?s = "nat start"
  let ?ys = "drop ?s xs"
  have s: "?s < length xs" using False assms by simp
  have n: "1 \<le> ?n" using assms by simp
  have cnt: "nat ((int (length xs) - start - 1) div step + 1) = (length ?ys + ?n - 1) div ?n"
  proof -
    have "int (length xs) - start - 1 = int (length xs - ?s - 1)" using s assms by simp
    moreover have "step = int ?n" using assms by simp
    ultimately have "(int (length xs) - start - 1) div step = int ((length xs - ?s - 1) div ?n)"
      by (simp add: zdiv_int)
    then have "(int (length xs) - start - 1) div step + 1 = int ((length xs - ?s - 1) div ?n + 1)"
      by simp
    then have "nat ((int (length xs) - start - 1) div step + 1) = (length xs - ?s - 1) div ?n + 1"
      by (simp only: nat_int)
    also have "\<dots> = (length xs - ?s - 1 + ?n) div ?n" using n by (simp add: div_add_stride)
    also have "length xs - ?s - 1 + ?n = length ?ys + ?n - 1" using s n by simp
    finally show ?thesis .
  qed
  have "map (\<lambda>k. xs ! nat (start + int k * step)) [0..<(length ?ys + ?n - 1) div ?n]
        = map (\<lambda>k. ?ys ! (k * ?n)) [0..<(length ?ys + ?n - 1) div ?n]"
  proof (rule map_cong[OF refl])
    fix k assume "k \<in> set [0..<(length ?ys + ?n - 1) div ?n]"
    have "nat (start + int k * step) = ?s + k * ?n"
      using assms by (simp add: nat_add_distrib nat_mult_distrib)
    then show "xs ! nat (start + int k * step) = ?ys ! (k * ?n)"
      using s by simp
  qed
  then show ?thesis
    using False assms cnt by (simp add: slice_from_def adjust_start_def slice_length_def Let_def every_nth_map[OF n])
qed

lemma int_div_bound: "0 < b \<Longrightarrow> int k \<le> a div b \<Longrightarrow> int k * b \<le> (a::int)"
proof -
  assume b: "0 < b" and k: "int k \<le> a div b"
  have "int k * b \<le> (a div b) * b" using b k by (simp add: mult_right_mono)
  also have "\<dots> = a - a mod b" by (simp add: algebra_simps minus_mod_eq_mult_div)
  also have "\<dots> \<le> a" using b by simp
  finally show ?thesis .
qed

lemma slice_from_index:
  assumes "step \<noteq> 0"
    and s1: "start1 = adjust_start len start step"
    and st: "stop1 = (if step < 0 then - 1 else len)"
    and k: "k < nat (slice_length start1 stop1 step)"
    and len: "0 \<le> len"
  shows "0 \<le> start1 + int k * step \<and> start1 + int k * step < len"
proof (cases "step < 0")
  case True
  have r: "- 1 \<le> start1" "start1 < len" using True len by (auto simp: s1 adjust_start_def)
  have pos: "- 1 < start1" using k True by (auto simp: slice_length_def st split: if_splits)
  have "int k \<le> start1 div (- step)" using k True pos by (auto simp: slice_length_def st)
  then have "int k * (- step) \<le> start1" using True by (intro int_div_bound) auto
  moreover have "int k * step \<le> 0" using True by (simp add: mult_nonneg_nonpos)
  ultimately show ?thesis using r by auto
next
  case False
  then have sp: "0 < step" using assms(1) by simp
  have r: "0 \<le> start1" "start1 \<le> len" using sp len by (auto simp: s1 adjust_start_def)
  have lt: "start1 < len" using k sp by (auto simp: slice_length_def st split: if_splits)
  have "int k \<le> (len - start1 - 1) div step" using k sp lt by (auto simp: slice_length_def st)
  then have "int k * step \<le> len - start1 - 1" using sp by (intro int_div_bound) auto
  moreover have "0 \<le> int k * step" using sp by simp
  ultimately show ?thesis using r by auto
qed

lemma slice_from_subset:
  assumes "slice_from xs start step = Inr ys"
  shows "set ys \<subseteq> set xs"
proof
  fix y assume y: "y \<in> set ys"
  have nz: "step \<noteq> 0" using assms by (auto simp: slice_from_def split: if_splits)
  define len where "len = int (length xs)"
  define start1 where "start1 = adjust_start len start step"
  define stop1 where "stop1 = (if step < 0 then - 1 else len)"
  have ys: "ys = map (\<lambda>k. xs ! nat (start1 + int k * step)) [0..<nat (slice_length start1 stop1 step)]"
    using assms nz by (auto simp add: slice_from_def Let_def len_def start1_def stop1_def)
  then obtain k where k: "k < nat (slice_length start1 stop1 step)" "y = xs ! nat (start1 + int k * step)"
    using y by auto
  have "0 \<le> start1 + int k * step \<and> start1 + int k * step < len"
    by (rule slice_from_index[OF nz start1_def stop1_def k(1)]) (simp add: len_def)
  then have "nat (start1 + int k * step) < length xs" unfolding len_def by linarith
  then show "y \<in> set xs" using k(2) by simp
qed

lemma slice_from_total: "step \<noteq> 0 \<Longrightarrow> \<exists>ys. slice_from xs start step = Inr ys"
  by (simp add: slice_from_def Let_def)

lemma slice_from_zero: "slice_from xs start 0 = Inl ValueError"
  by (simp add: slice_from_def)

section \<open>Facts about grouping and selection\<close>

lemma append_image_keys:
  "map fst (map (\<lambda>(k, v). if k = s then (k, v @ [p]) else (k, v)) shots) = map fst shots"
  by (induction shots) auto

lemma append_image_map_of:
  "map_of (map (\<lambda>(k, v). if k = s then (k, v @ [p]) else (k, v)) shots) k =
     (if k = s then map_option (\<lambda>v. v @ [p]) (map_of shots k) else map_of shots k)"
  by (induction shots) auto

lemma map_of_None_keys: "(map_of shots s = None) = (s \<notin> set (map fst shots))"
  by (simp add: map_of_eq_None_iff)

lemma images_of_step:
  "images_of (map (\<lambda>(k, v). if k = s then (k, v @ [p]) else (k, v))
               (if map_of shots s = None then shots @ [(s, [])] else shots)) k
   = images_of shots k \<union> (if k = s then {p} else {})"
  by (auto simp: images_of_def append_image_map_of map_add_def split: option.splits)

lemma keys_step:
  "map fst (map (\<lambda>(k, v). if k = s then (k, v @ [p]) else (k, v))
               (if map_of shots s = None then shots @ [(s, [])] else shots))
   = (if s \<in> set (map fst shots) then map fst shots else map fst shots @ [s])"
  by (simp only: append_image_keys map_of_None_keys) auto

lemma group_by_shot_loop_keys:
  "distinct (map fst shots) \<Longrightarrow>
   distinct (map fst (group_by_shot_loop imgs shots)) \<and>
   set (map fst (group_by_shot_loop imgs shots)) = set (map fst shots) \<union> shot_of ` set imgs"
proof (induction imgs arbitrary: shots)
  case Nil
  then show ?case by simp
next
  case (Cons p imgs)
  let ?s = "get_shot_number (path_name p)"
  let ?next = "map (\<lambda>(k, v). if k = ?s then (k, v @ [p]) else (k, v))
               (if map_of shots ?s = None then shots @ [(?s, [])] else shots)"
  have d: "distinct (map fst ?next)" using Cons.prems by (simp only: keys_step) auto
  have "set (map fst ?next) = set (map fst shots) \<union> {shot_of p}"
    by (simp only: keys_step) (auto simp: shot_of_def)
  then show ?case using Cons.IH[OF d] by (auto simp: Let_def)
qed

lemma group_by_shot_loop_images:
  "images_of (group_by_shot_loop imgs shots) k
     = images_of shots k \<union> {p \<in> set imgs. shot_of p = k}"
proof (induction imgs arbitrary: shots)
  case Nil
  then show ?case by simp
next
  case (Cons p imgs)
  show ?case
    by (simp only: group_by_shot_loop.simps Let_def Cons.IH images_of_step)
       (auto simp: shot_of_def)
qed

lemma group_by_shot_keys:
  "distinct (map fst (group_by_shot imgs))" "set (map fst (group_by_shot imgs)) = shot_ids imgs"
  using group_by_shot_loop_keys[of "[]" imgs] by (simp_all add: group_by_shot_def shot_ids_def)

lemma group_by_shot_images:
  "images_of (group_by_shot imgs) k = {p \<in> set imgs. shot_of p = k}"
  using group_by_shot_loop_images[of imgs "[]" k] by (simp add: group_by_shot_def images_of_def)

lemma sorted_shots: "sort (map fst (group_by_shot imgs)) = sorted_list_of_set (shot_ids imgs)"
  using group_by_shot_keys[of imgs]
  by (metis distinct_remdups_id sorted_list_of_set_sort_remdups)

lemma fold_insert_images:
  "fold (\<lambda>img_path (rels, names). (insert img_path rels, insert (path_name img_path) names)) imgs (R, N)
     = (R \<union> set imgs, N \<union> path_name ` set imgs)"
  by (induction imgs arbitrary: R N) auto

lemma collect_selected_result:
  "set sel \<subseteq> set (map fst shots) \<Longrightarrow>
   collect_selected shots sel (R, N) =
     Inr (R \<union> (\<Union>s \<in> set sel. images_of shots s),
          N \<union> path_name ` (\<Union>s \<in> set sel. images_of shots s))"
proof (induction sel arbitrary: R N)
  case Nil
  then show ?case by simp
next
  case (Cons s sel)
  then obtain v where v: "map_of shots s = Some v"
    by (cases "map_of shots s") (auto simp: map_of_None_keys)
  have sub: "set sel \<subseteq> set (map fst shots)" using Cons.prems by simp
  show ?case
    using v Cons.IH[OF sub] by (auto simp: fold_insert_images images_of_def)
qed

lemma select_shots_forward:
  "1 \<le> n \<Longrightarrow> 0 \<le> off \<Longrightarrow>
   select_shots image_files off n = Inr (sorted_stride (shot_ids image_files) (nat off) (nat n))"
  by (simp add: select_shots_def Let_def sorted_shots slice_from_forward sorted_stride_def)

lemma every_nth_short: "length ys \<le> n \<Longrightarrow> every_nth n ys = take 1 ys"
  by (cases ys) auto

lemma take1_drop: "take 1 (drop i xs) = (if i < length xs then [xs ! i] else [])"
  by (cases "i < length xs") (auto simp: take_Suc_conv_app_nth[of 0] hd_drop_conv_nth take_Suc)

lemma finite_shot_ids: "finite (shot_ids imgs)"
  by (simp add: shot_ids_def)

lemma find_images_subset: "set (find_images tree) \<subseteq> fst ` set tree"
  by (auto simp: find_images_def rglob_def)

lemma copy_images_result:
  "\<forall>r \<in> set rs. map_of tree r \<noteq> None \<Longrightarrow>
   \<exists>st'. copy_images tree rs st = (None, st') \<and> log st' = log st \<and> dirs st \<subseteq> dirs st' \<and>
         files st' = (\<lambda>p. if p \<in> (\<lambda>r. ''images/'' @ r) ` set rs
                            then map_of tree (drop 7 p) else files st p)"
proof (induction rs arbitrary: st)
  case Nil
  then show ?case by simp
next
  case (Cons r rs)
  then obtain data where data: "map_of tree r = Some data" by auto
  let ?st2 = "copy2 data (''images/'' @ r) (mkdir_parents (parent (''images/'' @ r)) st)"
  from Cons.prems have "\<forall>r \<in> set rs. map_of tree r \<noteq> None" by simp
  from Cons.IH[OF this, of ?st2] obtain st' where
    st': "copy_images tree rs ?st2 = (None, st')" "log st' = log ?st2" "dirs ?st2 \<subseteq> dirs st'"
      "files st' = (\<lambda>p. if p \<in> (\<lambda>r. ''images/'' @ r) ` set rs
                            then map_of tree (drop 7 p) else files ?st2 p)"
    by blast
  have "copy_images tree (r # rs) st = (None, st')" using data st'(1) by (simp add: Let_def)
  moreover have "log st' = log st" using st'(2) by (simp add: copy2_def mkdir_parents_def)
  moreover have "dirs st \<subseteq> dirs st'" using st'(3) by (auto simp: copy2_def mkdir_parents_def)
  moreover have "files st' = (\<lambda>p. if p \<in> (\<lambda>r. ''images/'' @ r) ` set (r # rs)
                            then map_of tree (drop 7 p) else files st p)"
    using data by (auto simp: st'(4) copy2_def mkdir_parents_def fun_eq_iff)
  ultimately show ?case by blast
qed

section \<open>Facts about the run of the program\<close>

lemma print_simps [simp]:
  "files (print m st) = files st" "dirs (print m st) = dirs st" "log (print m st) = log st @ [m]"
  by (simp_all add: print_def)

lemma mkdir_parents_simps [simp]:
  "files (mkdir_parents d st) = files st" "log (mkdir_parents d st) = log st"
  "d \<in> dirs (mkdir_parents d st)" "x \<in> dirs st \<Longrightarrow> x \<in> dirs (mkdir_parents d st)"
  by (simp_all add: mkdir_parents_def)

lemma copy2_simps [simp]:
  "files (copy2 data dst st) = (files st)(dst \<mapsto> data)" "dirs (copy2 data dst st) = dirs st"
  "log (copy2 data dst st) = log st"
  by (simp_all add: copy2_def)

lemma copy_cameras_frame:
  "dirs (copy_cameras d names st) = dirs st"
  "p \<notin> (\<lambda>f. ''sparse/0/'' @ f) ` set names \<Longrightarrow> files (copy_cameras d names st) p = files st p"
  "set (log st) \<subseteq> set (log (copy_cameras d names st))"
  "set (log (copy_cameras d names st)) \<subseteq> set (log st) \<union> range CopiedFile"
  by (induction names arbitrary: st) (auto simp: print_def copy2_def split: option.splits)

lemma copy_points_frame:
  "dirs (copy_points d names st) = dirs st"
  "p \<notin> (\<lambda>f. ''sparse/0/'' @ f) ` set names \<Longrightarrow> files (copy_points d names st) p = files st p"
  "set (log st) \<subseteq> set (log (copy_points d names st))"
  "set (log (copy_points d names st)) \<subseteq> set (log st) \<union> range CopiedFile"
proof (induction names arbitrary: st)
  case Nil
  { case 1 show ?case by simp }
  { case 2 show ?case by simp }
  { case 3 show ?case by simp }
  { case 4 show ?case by simp }
next
  case (Cons f names)
  { case 1 show ?case by (auto simp: Cons.IH(1) print_def copy2_def split: option.splits) }
  { case 2 then show ?case by (auto simp: Cons.IH(2) print_def copy2_def split: option.splits) }
  { case 3 show ?case
      using Cons.IH(3)[of st] Cons.IH(3)[of "print (CopiedFile f) (copy2 (the (d f)) (''sparse/0/'' @ f) st)"]
      by (auto simp: print_def copy2_def split: option.splits) }
  { case 4 show ?case
      using Cons.IH(4)[of st] Cons.IH(4)[of "print (CopiedFile f) (copy2 (the (d f)) (''sparse/0/'' @ f) st)"]
      by (auto simp: print_def copy2_def split: option.splits) }
qed

declare copy_cameras.simps [simp del] copy_points.simps [simp del]

lemma filter_poses_text:
  "d ''images.txt'' = Some lines \<Longrightarrow>
   \<exists>kept. filter_images_txt lines selected = (Inr kept, snd (filter_images_txt lines selected)) \<and>
     filter_poses d selected st =
       (None, print (FilteredImagesTxt kept)
                (copy2 (snd (filter_images_txt lines selected)) ''sparse/0/images.txt'' st))"
  using filter_images_txt_total[of lines selected]
  by (cases "filter_images_txt lines selected") (auto simp: filter_poses_def)

lemma filter_poses_binary:
  "d ''images.txt'' = None \<Longrightarrow> d ''images.bin'' = Some b \<Longrightarrow>
   filter_poses d selected st = (None, print WarningImagesBin st)"
  by (simp add: filter_poses_def)

lemma filter_poses_ok: "fst (filter_poses d selected st) = None"
  using filter_images_txt_total[of "the (d ''images.txt'')" selected]
  by (cases "filter_images_txt (the (d ''images.txt'')) selected")
     (auto simp: filter_poses_def split: option.splits)

lemma filter_poses_frame:
  "dirs (snd (filter_poses d selected st)) = dirs st"
  "p \<noteq> ''sparse/0/images.txt'' \<Longrightarrow> files (snd (filter_poses d selected st)) p = files st p"
  by (auto simp: filter_poses_def print_def copy2_def split: option.splits prod.splits sum.splits)

lemma process_sparse_returns: "fst (process_sparse a fs R N st) = Returned"
proof (cases "sparse_dir fs")
  case None
  then show ?thesis by (simp add: process_sparse_def)
next
  case (Some d)
  let ?st2 = "copy_cameras d [''cameras.txt'', ''cameras.bin''] (print ProcessingColmap st)"
  obtain st3 where "filter_poses d (R \<union> N) ?st2 = (None, st3)"
    using filter_poses_ok[of d "R \<union> N" ?st2] by (cases "filter_poses d (R \<union> N) ?st2") auto
  then show ?thesis using Some by (simp add: process_sparse_def Let_def)
qed

lemma process_sparse_dirs: "dirs (snd (process_sparse a fs R N st)) = dirs st"
proof (cases "sparse_dir fs")
  case None
  then show ?thesis by (simp add: process_sparse_def print_def)
next
  case (Some d)
  let ?st2 = "copy_cameras d [''cameras.txt'', ''cameras.bin''] (print ProcessingColmap st)"
  obtain st3 where f: "filter_poses d (R \<union> N) ?st2 = (None, st3)"
    using filter_poses_ok[of d "R \<union> N" ?st2] by (cases "filter_poses d (R \<union> N) ?st2") auto
  have "dirs st3 = dirs st"
    using filter_poses_frame(1)[of d "R \<union> N" ?st2] f
    by (simp add: copy_cameras_frame(1) print_def)
  then show ?thesis using Some f
    by (simp add: process_sparse_def Let_def copy_points_frame(1) print_def)
qed

lemma process_sparse_images:
  "files (snd (process_sparse a fs R N st)) (''images/'' @ r) = files st (''images/'' @ r)"
proof (cases "sparse_dir fs")
  case None
  then show ?thesis by (simp add: process_sparse_def print_def)
next
  case (Some d)
  let ?st2 = "copy_cameras d [''cameras.txt'', ''cameras.bin''] (print ProcessingColmap st)"
  obtain st3 where f: "filter_poses d (R \<union> N) ?st2 = (None, st3)"
    using filter_poses_ok[of d "R \<union> N" ?st2] by (cases "filter_poses d (R \<union> N) ?st2") auto
  have "files st3 (''images/'' @ r) = files ?st2 (''images/'' @ r)"
    using filter_poses_frame(2)[of "''images/'' @ r" d "R \<union> N" ?st2] f by simp
  also have "\<dots> = files st (''images/'' @ r)"
    by (subst copy_cameras_frame(2)) (auto simp: print_def)
  finally have "files st3 (''images/'' @ r) = files st (''images/'' @ r)" .
  moreover have "files (copy_points d [''points3D.txt'', ''points3D.bin'', ''points3D.ply''] st3)
                   (''images/'' @ r) = files st3 (''images/'' @ r)"
    by (subst copy_points_frame(2)) auto
  ultimately show ?thesis using Some f
    by (simp add: process_sparse_def Let_def print_def)
qed

lemma select_shots_subset:
  assumes "select_shots imgs off n = Inr sel"
  shows "set sel \<subseteq> set (map fst (group_by_shot imgs))"
  using slice_from_subset[of "sort (map fst (group_by_shot imgs))" off n sel] assms
  by (simp add: select_shots_def Let_def)

lemma collect_selected_main:
  assumes "select_shots imgs off n = Inr sel"
  shows "collect_selected (group_by_shot imgs) sel ({}, {})
           = Inr (selected_rel imgs sel, path_name ` selected_rel imgs sel)"
proof -
  have "(\<Union>s \<in> set sel. images_of (group_by_shot imgs) s) = selected_rel imgs sel"
    by (auto simp: group_by_shot_images selected_rel_def)
  then show ?thesis
    using collect_selected_result[OF select_shots_subset[OF assms], of "{}" "{}"] by simp
qed

lemma main_run:
  assumes src: "source_exists fs" and im: "images fs = Some tree"
    and ne: "find_images tree \<noteq> []"
    and sel: "select_shots (find_images tree) (offset a) (keep_every a) = Inr sel"
  shows "\<exists>st7 n1 n2 n3 n5.
           main a fs st0 = process_sparse a fs (selected_rel (find_images tree) sel)
                             (path_name ` selected_rel (find_images tree) sel) st7 \<and>
           files st7 = (\<lambda>p. if p \<in> (\<lambda>r. ''images/'' @ r) ` selected_rel (find_images tree) sel
                             then map_of tree (drop 7 p) else files st0 p) \<and>
           dirs st0 \<union> {''images'', ''sparse/0''} \<subseteq> dirs st7 \<and>
           log st7 = log st0 @ [Scanning, Statistics n1 n2 n3 (keep_every a) n5,
                       SelectedImages (card (selected_rel (find_images tree) sel)),
                       CopyingImages,
                       CopiedImages (card (selected_rel (find_images tree) sel))]"
proof -
  let ?imgs = "find_images tree"
  let ?R = "selected_rel ?imgs sel"
  let ?shots = "group_by_shot ?imgs"
  let ?st2 = "print (Statistics (length ?imgs) (length (sort (map fst ?shots)))
               (length ?imgs div length (sort (map fst ?shots))) (keep_every a) (length sel))
               (print Scanning st0)"
  let ?st5 = "print CopyingImages (mkdir_parents ''sparse/0'' (mkdir_parents ''images''
               (print (SelectedImages (card ?R)) ?st2)))"
  have fin: "finite ?R" by (simp add: selected_rel_def)
  have "\<forall>r \<in> set (sorted_list_of_set ?R). map_of tree r \<noteq> None"
    using fin find_images_subset[of tree]
    by (auto simp: selected_rel_def map_of_eq_None_iff)
  from copy_images_result[OF this, of ?st5] obtain st6 where
    st6: "copy_images tree (sorted_list_of_set ?R) ?st5 = (None, st6)" "log st6 = log ?st5"
      "dirs ?st5 \<subseteq> dirs st6"
      "files st6 = (\<lambda>p. if p \<in> (\<lambda>r. ''images/'' @ r) ` set (sorted_list_of_set ?R)
                            then map_of tree (drop 7 p) else files ?st5 p)"
    by blast
  let ?st7 = "print (CopiedImages (card ?R)) st6"
  have m: "main a fs st0 = process_sparse a fs ?R (path_name ` ?R) ?st7"
    using src im ne sel collect_selected_main[OF sel] st6(1)
    by (simp add: main_def Let_def)
  have f: "files ?st7 = (\<lambda>p. if p \<in> (\<lambda>r. ''images/'' @ r) ` ?R
                             then map_of tree (drop 7 p) else files st0 p)"
    using fin by (simp add: st6(4) cong: if_cong)
  have d: "dirs st0 \<union> {''images'', ''sparse/0''} \<subseteq> dirs ?st7"
  proof -
    have "dirs st0 \<union> {''images'', ''sparse/0''} \<subseteq> dirs ?st5" by auto
    then show ?thesis using st6(3) by auto
  qed
  have l: "log ?st7 = log st0 @ [Scanning, Statistics (length ?imgs) (length (sort (map fst ?shots)))
               (length ?imgs div length (sort (map fst ?shots))) (keep_every a) (length sel),
                       SelectedImages (card ?R), CopyingImages, CopiedImages (card ?R)]"
    by (simp add: st6(2))
  show ?thesis using m f d l by blast
qed

lemma main_no_images:
  "source_exists fs \<Longrightarrow> images fs = Some tree \<Longrightarrow> find_images tree = [] \<Longrightarrow>
   main a fs st0 = (SysExit 1, print ErrorNoImages (print Scanning st0))"
  by (simp add: main_def Let_def)

lemma main_zero_stride:
  "source_exists fs \<Longrightarrow> images fs = Some tree \<Longrightarrow> find_images tree \<noteq> [] \<Longrightarrow>
   keep_every a = 0 \<Longrightarrow> main a fs st0 = (Uncaught ValueError, print Scanning st0)"
  by (simp add: main_def Let_def select_shots_def slice_from_zero)

lemma select_shots_total:
  "n \<noteq> 0 \<Longrightarrow> \<exists>sel. select_shots imgs off n = Inr sel"
  by (simp add: select_shots_def Let_def slice_from_total)

section \<open>Facts about the outcome of a run\<close>

lemma main_nonzero_stride:
  assumes "source_exists fs" "images fs = Some tree" "find_images tree \<noteq> []" "keep_every a \<noteq> 0"
  shows "\<exists>sel. select_shots (find_images tree) (offset a) (keep_every a) = Inr sel \<and>
           fst (main a fs st0) = Returned \<and>
           dirs st0 \<union> {''images'', ''sparse/0''} \<subseteq> dirs (snd (main a fs st0)) \<and>
           (\<forall>r. files (snd (main a fs st0)) (''images/'' @ r)
                  = (if r \<in> selected_rel (find_images tree) sel then map_of tree r
                     else files st0 (''images/'' @ r)))"
proof -
  obtain sel where sel: "select_shots (find_images tree) (offset a) (keep_every a) = Inr sel"
    using select_shots_total[OF assms(4)] by blast
  from main_run[OF assms(1-3) sel, of st0] obtain st7 n1 n2 n3 n5 where
    r: "main a fs st0 = process_sparse a fs (selected_rel (find_images tree) sel)
                             (path_name ` selected_rel (find_images tree) sel) st7"
       "files st7 = (\<lambda>p. if p \<in> (\<lambda>r. ''images/'' @ r) ` selected_rel (find_images tree) sel
                             then map_of tree (drop 7 p) else files st0 p)"
       "dirs st0 \<union> {''images'', ''sparse/0''} \<subseteq> dirs st7"
    by blast
  have "fst (main a fs st0) = Returned" by (simp add: r(1) process_sparse_returns)
  moreover have "dirs st0 \<union> {''images'', ''sparse/0''} \<subseteq> dirs (snd (main a fs st0))"
    using r(3) by (simp add: r(1) process_sparse_dirs)
  moreover have "files (snd (main a fs st0)) (''images/'' @ r)
                  = (if r \<in> selected_rel (find_images tree) sel then map_of tree r
                     else files st0 (''images/'' @ r))" for r
  proof -
    have "files (snd (main a fs st0)) (''images/'' @ r) = files st7 (''images/'' @ r)"
      by (simp only: r(1) process_sparse_images)
    also have "\<dots> = (if r \<in> selected_rel (find_images tree) sel then map_of tree r
                     else files st0 (''images/'' @ r))"
      by (auto simp: r(2))
    finally show ?thesis .
  qed
  ultimately show ?thesis using sel by blast
qed

lemma main_aborts_frame:
  "fst (main a fs st0) \<noteq> Returned \<Longrightarrow>
   dirs (snd (main a fs st0)) = dirs st0 \<and> files (snd (main a fs st0)) = files st0"
proof -
  assume nr: "fst (main a fs st0) \<noteq> Returned"
  show ?thesis
  proof (cases "source_exists fs")
    case False
    then show ?thesis by (simp add: main_def)
  next
    case True
    show ?thesis
    proof (cases "images fs")
      case None
      then show ?thesis using True by (simp add: main_def)
    next
      case (Some tree)
      show ?thesis
      proof (cases "find_images tree = []")
        case e: True
        then show ?thesis using True Some by (simp add: main_no_images)
      next
        case ne: False
        have "keep_every a = 0"
          using main_nonzero_stride[OF True Some ne, of a st0] nr by blast
        then show ?thesis using True Some ne by (simp add: main_zero_stride)
      qed
    qed
  qed
qed

lemma shot_of_examples:
  "shot_of ''000001_0.png'' = ''000001''" "shot_of ''000001_1.png'' = ''000001''"
  "shot_of ''000002_0.png'' = ''000002''" "shot_of ''000003_0.png'' = ''000003''"
  by (simp_all add: shot_of_def path_name_def get_shot_number_def basename_def splitext_def
      rfind_def rsplit1_def)

lemma find_images_one: "find_images [(''000001_0.png'', [''pixels''])] = [''000001_0.png'']"
  by (simp add: find_images_def rglob_def endswith_def path_name_def basename_def rfind_def)

lemma main_source_missing:
  "\<not> source_exists fs \<Longrightarrow> main a fs st0 = (SysExit 1, print ErrorSourceMissing st0)"
  by (simp add: main_def)

lemma expected_lines_verbatim:
  "\<forall>it \<in> set items. verbatim_item S it \<Longrightarrow> concat (map (expected_lines S) items) = render items"
proof (induction items)
  case Nil
  then show ?case by (simp add: render_def)
next
  case (Cons it items)
  then show ?case by (cases it) (auto simp: render_def)
qed

lemma every_nth_one: "every_nth (Suc 0) xs = xs"
  by (induction xs) auto

lemma select_all: "select_shots imgs 0 1 = Inr (sorted_list_of_set (shot_ids imgs))"
  using select_shots_forward[of 1 0 imgs] by (simp add: sorted_stride_def every_nth_one)

lemma selected_rel_all: "selected_rel imgs (sorted_list_of_set (shot_ids imgs)) = set imgs"
  by (auto simp: selected_rel_def finite_shot_ids shot_ids_def)

lemma process_sparse_text:
  assumes "sparse_dir fs = Some d" "d ''images.txt'' = Some lines"
  shows "files (snd (process_sparse a fs R N st)) ''sparse/0/images.txt''
           = Some (snd (filter_images_txt lines (R \<union> N)))"
proof -
  let ?st2 = "copy_cameras d [''cameras.txt'', ''cameras.bin''] (print ProcessingColmap st)"
  from filter_poses_text[of d lines "R \<union> N" ?st2] assms(2) obtain kept where
    f: "filter_poses d (R \<union> N) ?st2 =
       (None, print (FilteredImagesTxt kept)
                (copy2 (snd (filter_images_txt lines (R \<union> N))) ''sparse/0/images.txt'' ?st2))"
    by blast
  have "files (copy_points d [''points3D.txt'', ''points3D.bin'', ''points3D.ply'']
          (print (FilteredImagesTxt kept)
                (copy2 (snd (filter_images_txt lines (R \<union> N))) ''sparse/0/images.txt'' ?st2)))
          ''sparse/0/images.txt'' = Some (snd (filter_images_txt lines (R \<union> N)))"
    by (subst copy_points_frame(2)) auto
  then show ?thesis using assms(1) f by (simp add: process_sparse_def Let_def)
qed

lemma main_full_run:
  assumes "source_exists fs" and "images fs = Some tree" and "find_images tree \<noteq> []"
    and "keep_every a = 1" and "offset a = 0"
  shows "\<exists>st7. main a fs st0
                 = process_sparse a fs (set (find_images tree)) (path_name ` set (find_images tree)) st7 \<and>
               files st7 = (\<lambda>p. if p \<in> (\<lambda>r. ''images/'' @ r) ` set (find_images tree)
                             then map_of tree (drop 7 p) else files st0 p)"
proof -
  let ?imgs = "find_images tree"
  let ?sel = "sorted_list_of_set (shot_ids ?imgs)"
  have sel: "select_shots ?imgs (offset a) (keep_every a) = Inr ?sel"
    using assms(4,5) by (simp add: select_all)
  from main_run[OF assms(1-3) sel, of st0] show ?thesis
    unfolding selected_rel_all by blast
qed

lemma main_full_images:
  assumes "source_exists fs" and "images fs = Some tree" and "find_images tree \<noteq> []"
    and "keep_every a = 1" and "offset a = 0"
  shows "files (snd (main a fs st0)) (''images/'' @ r)
               = (if r \<in> set (find_images tree) then map_of tree r
                  else files st0 (''images/'' @ r))"
proof -
  from main_full_run[OF assms, of st0] obtain st7 where
    r: "main a fs st0
          = process_sparse a fs (set (find_images tree)) (path_name ` set (find_images tree)) st7"
       "files st7 = (\<lambda>p. if p \<in> (\<lambda>r. ''images/'' @ r) ` set (find_images tree)
                             then map_of tree (drop 7 p) else files st0 p)"
    by blast
  have "files (snd (main a fs st0)) (''images/'' @ r) = files st7 (''images/'' @ r)"
    by (simp only: r(1) process_sparse_images)
  also have "\<dots> = (if r \<in> set (find_images tree) then map_of tree r
                     else files st0 (''images/'' @ r))"
    by (auto simp: r(2))
  finally show ?thesis .
qed

lemma main_full_poses:
  assumes "source_exists fs" and "images fs = Some tree" and "find_images tree \<noteq> []"
    and "keep_every a = 1" and "offset a = 0"
    and "sparse_dir fs = Some d" and "d ''images.txt'' = Some (render items)"
    and "\<forall>it \<in> set items. wf_item it"
  shows "files (snd (main a fs st0)) ''sparse/0/images.txt''
              = Some (concat (map (expected_lines (existing_images tree)) items))"
proof -
  from main_full_run[OF assms(1-5), of st0] obtain st7 where
    r: "main a fs st0
          = process_sparse a fs (set (find_images tree)) (path_name ` set (find_images tree)) st7"
    by blast
  show ?thesis
    using process_sparse_text[OF assms(6,7), of a "set (find_images tree)"
            "path_name ` set (find_images tree)" st7]
      filter_images_txt_render[OF assms(8), of "existing_images tree"]
    by (simp add: r existing_images_def)
qed

lemma header_000001_retained:
  "retained_header (existing_images [(''000001_0.png'', [''pixels''])])
     ''1 0 0 0 0 0 0 0 1 000001_0.png''"
  by (simp add: retained_header_def image_name_def split_def isspace_def existing_images_def
      find_images_one)

lemma copy_cameras_cong:
  "\<forall>f \<in> set names. d f = d' f \<Longrightarrow> copy_cameras d names st = copy_cameras d' names st"
  by (induction names arbitrary: st) (auto simp: copy_cameras.simps split: option.splits)

lemma copy_points_cong:
  "\<forall>f \<in> set names. d f = d' f \<Longrightarrow> copy_points d names st = copy_points d' names st"
  by (induction names arbitrary: st) (auto simp: copy_points.simps split: option.splits)

lemma process_sparse_binary:
  assumes "sparse_dir fs = Some d" and "d ''images.txt'' = None" and "d ''images.bin'' = Some b"
  shows "process_sparse a fs R N st =
           (Returned,
            print (Summary (card R) (keep_every a))
              (copy_points d [''points3D.txt'', ''points3D.bin'', ''points3D.ply'']
                 (print WarningImagesBin
                    (copy_cameras d [''cameras.txt'', ''cameras.bin'']
                       (print ProcessingColmap st)))))"
  using assms by (simp add: process_sparse_def Let_def filter_poses_binary)

lemma process_sparse_binary_facts:
  assumes "sparse_dir fs = Some d" and "d ''images.txt'' = None" and "d ''images.bin'' = Some b"
  shows "WarningImagesBin \<in> set (log (snd (process_sparse a fs R N st)))"
    and "FilteredImagesTxt k \<in> set (log (snd (process_sparse a fs R N st)))
           \<Longrightarrow> FilteredImagesTxt k \<in> set (log st)"
    and "files (snd (process_sparse a fs R N st)) ''sparse/0/images.txt''
           = files st ''sparse/0/images.txt''"
proof -
  let ?c = "copy_cameras d [''cameras.txt'', ''cameras.bin''] (print ProcessingColmap st)"
  let ?p = "copy_points d [''points3D.txt'', ''points3D.bin'', ''points3D.ply'']
              (print WarningImagesBin ?c)"
  have eq: "snd (process_sparse a fs R N st) = print (Summary (card R) (keep_every a)) ?p"
    by (simp add: process_sparse_binary[OF assms])
  show "WarningImagesBin \<in> set (log (snd (process_sparse a fs R N st)))"
    using copy_points_frame(3)[of "print WarningImagesBin ?c" d
            "[''points3D.txt'', ''points3D.bin'', ''points3D.ply'']"]
    by (auto simp: eq)
  show "FilteredImagesTxt k \<in> set (log st)"
    if "FilteredImagesTxt k \<in> set (log (snd (process_sparse a fs R N st)))"
  proof -
    have "FilteredImagesTxt k \<in> set (log ?p)" using that by (simp add: eq)
    then have "FilteredImagesTxt k \<in> set (log (print WarningImagesBin ?c))"
      using copy_points_frame(4)[of d "[''points3D.txt'', ''points3D.bin'', ''points3D.ply'']"
              "print WarningImagesBin ?c"] by auto
    then have "FilteredImagesTxt k \<in> set (log ?c)" by simp
    then have "FilteredImagesTxt k \<in> set (log (print ProcessingColmap st))"
      using copy_cameras_frame(4)[of d "[''cameras.txt'', ''cameras.bin'']"
              "print ProcessingColmap st"] by auto
    then show ?thesis by simp
  qed
  have "files ?p ''sparse/0/images.txt'' = files (print WarningImagesBin ?c) ''sparse/0/images.txt''"
    by (subst copy_points_frame(2)) auto
  also have "\<dots> = files ?c ''sparse/0/images.txt''" by simp
  also have "\<dots> = files (print ProcessingColmap st) ''sparse/0/images.txt''"
    by (subst copy_cameras_frame(2)) auto
  finally show "files (snd (process_sparse a fs R N st)) ''sparse/0/images.txt''
           = files st ''sparse/0/images.txt''"
    by (simp add: eq)
qed

lemma process_sparse_binary_content:
  assumes "sparse_dir fs = Some d" and "d ''images.txt'' = None" and "d ''images.bin'' = Some b"
    and "sparse_dir fs' = Some (d(''images.bin'' \<mapsto> b'))"
  shows "process_sparse a fs' R N st = process_sparse a fs R N st"
proof -
  let ?d' = "d(''images.bin'' \<mapsto> b')"
  have c: "copy_cameras ?d' [''cameras.txt'', ''cameras.bin''] s
             = copy_cameras d [''cameras.txt'', ''cameras.bin''] s" for s
    by (rule copy_cameras_cong) simp
  have p: "copy_points ?d' [''points3D.txt'', ''points3D.bin'', ''points3D.ply''] s
             = copy_points d [''points3D.txt'', ''points3D.bin'', ''points3D.ply''] s" for s
    by (rule copy_points_cong) simp
  have "process_sparse a fs' R N st =
           (Returned,
            print (Summary (card R) (keep_every a))
              (copy_points ?d' [''points3D.txt'', ''points3D.bin'', ''points3D.ply'']
                 (print WarningImagesBin
                    (copy_cameras ?d' [''cameras.txt'', ''cameras.bin'']
                       (print ProcessingColmap st)))))"
    by (rule process_sparse_binary[OF assms(4)]) (simp_all add: assms(2))
  then show ?thesis by (simp only: c p process_sparse_binary[OF assms(1-3)])
qed

lemma main_binary_content:
  assumes "sparse_dir fs = Some d" and "d ''images.txt'' = None" and "d ''images.bin'' = Some b"
    and "sparse_dir fs' = Some (d(''images.bin'' \<mapsto> b'))"
    and "source_exists fs' = source_exists fs" and "images fs' = images fs"
  shows "main a fs' st0 = main a fs st0"
  unfolding main_def assms(5) assms(6) process_sparse_binary_content[OF assms(1-4)]
  by (rule refl)

section \<open>Properties of the selection and of the program\<close>

text \<open>
  Claim C3. For a stride \<open>n \<ge> 1\<close> and an offset \<open>0 \<le> off < n\<close>, the shots selected by
  \<open>main\<close> are the sorted shot ids taken every \<open>n\<close>-th from index \<open>off\<close>. The selection
  depends only on the set of shot ids, not on the order of enumeration, and when \<open>n\<close>
  exceeds the number of shots it is the single shot at index \<open>off\<close>, or empty (and no
  error) when \<open>off\<close> is not below the number of shots.
\<close>

theorem shot_selection:
  assumes "1 \<le> n" and "0 \<le> off" and "off < n"
  shows "select_shots image_files off n
           = Inr (sorted_stride (shot_ids image_files) (nat off) (nat n)) \<and>
         (shot_ids other_files = shot_ids image_files \<longrightarrow>
            select_shots other_files off n = select_shots image_files off n) \<and>
         (int (card (shot_ids image_files)) < n \<longrightarrow>
            select_shots image_files off n
              = Inr (if nat off < card (shot_ids image_files)
                     then [sorted_list_of_set (shot_ids image_files) ! nat off] else []))"
proof -
  have a: "select_shots fs off n = Inr (sorted_stride (shot_ids fs) (nat off) (nat n))" for fs
    using assms by (simp add: select_shots_forward)
  have c: "sorted_stride (shot_ids image_files) (nat off) (nat n)
             = (if nat off < card (shot_ids image_files)
                then [sorted_list_of_set (shot_ids image_files) ! nat off] else [])"
    if "int (card (shot_ids image_files)) < n"
  proof -
    let ?xs = "sorted_list_of_set (shot_ids image_files)"
    have len: "length ?xs = card (shot_ids image_files)" by simp
    have "length (drop (nat off) ?xs) \<le> nat n" using that len by simp
    then have "sorted_stride (shot_ids image_files) (nat off) (nat n) = take 1 (drop (nat off) ?xs)"
      unfolding sorted_stride_def by (rule every_nth_short)
    then show ?thesis by (simp only: take1_drop len)
  qed
  show ?thesis using a c by simp
qed

theorem shot_selection_witness:
  "select_shots [''000002_0.png'', ''000001_1.png'', ''000003_0.png'', ''000001_0.png''] 0 2
     = Inr [''000001'', ''000003''] \<and>
   select_shots [''000001_0.png'', ''000001_1.png'', ''000002_0.png'', ''000003_0.png''] 0 2
     = select_shots [''000002_0.png'', ''000001_1.png'', ''000003_0.png'', ''000001_0.png''] 0 2 \<and>
   select_shots [''000002_0.png'', ''000001_1.png'', ''000003_0.png'', ''000001_0.png''] 1 7
     = Inr [''000002'']"
proof -
  let ?a = "[''000002_0.png'', ''000001_1.png'', ''000003_0.png'', ''000001_0.png'']"
  let ?b = "[''000001_0.png'', ''000001_1.png'', ''000002_0.png'', ''000003_0.png'']"
  have ids: "shot_ids ?a = {''000001'', ''000002'', ''000003''}"
    "shot_ids ?b = {''000001'', ''000002'', ''000003''}"
    by (auto simp: shot_ids_def shot_of_examples)
  have srt: "sorted_list_of_set {''000001'', ''000002'', ''000003''} = [''000001'', ''000002'', ''000003'']"
    by (simp add: sorted_list_of_set.sorted_key_list_of_set_insert_remove insort_key.simps)
  have crd: "card {''000001'', ''000002'', ''000003''} = 3" by simp
  show ?thesis
    using shot_selection[of 2 0 ?a ?b] shot_selection[of 7 1 ?a ?b]
    by (simp add: ids srt crd sorted_stride_def)
qed

text \<open>
  Claim C5, as stated: a stride below 1 is reported as a configuration error and the
  program aborts before any mutation. With stride \<open>-1\<close> the program returns normally and
  has created the output image directory.
\<close>

theorem negative_stride_runs:
  "fst (main \<lparr>keep_every = - 1, offset = 0\<rparr> one_image empty_out) = Returned \<and>
   ''images'' \<in> dirs (snd (main \<lparr>keep_every = - 1, offset = 0\<rparr> one_image empty_out)) \<and>
   ''images'' \<notin> dirs empty_out"
  using main_nonzero_stride[of one_image "[(''000001_0.png'', [''pixels''])]"
          "\<lparr>keep_every = - 1, offset = 0\<rparr>" empty_out]
  by (auto simp: one_image_def find_images_one empty_out_def)

text \<open>
  Claim C5, amended. The program does not validate stride and offset. On a source with
  images, a stride of 0 makes the slice raise \<open>ValueError\<close>, uncaught, before any directory
  or file is created; any other stride, negative ones included, with any offset, selects
  by the rules of Python slices, creates the output directories, copies the images of the
  selected shots and returns normally.
\<close>

theorem stride_offset_not_validated:
  assumes "source_exists fs" and "images fs = Some tree" and "find_images tree \<noteq> []"
  shows "(keep_every a = 0 \<longrightarrow>
            main a fs st0 = (Uncaught ValueError, print Scanning st0) \<and>
            dirs (snd (main a fs st0)) = dirs st0 \<and> files (snd (main a fs st0)) = files st0) \<and>
         (keep_every a \<noteq> 0 \<longrightarrow>
            (\<exists>sel. slice_from (sorted_list_of_set (shot_ids (find_images tree)))
                     (offset a) (keep_every a) = Inr sel \<and>
                   fst (main a fs st0) = Returned \<and>
                   {''images'', ''sparse/0''} \<subseteq> dirs (snd (main a fs st0)) \<and>
                   (\<forall>r \<in> selected_rel (find_images tree) sel.
                      files (snd (main a fs st0)) (''images/'' @ r) = map_of tree r)))"
proof -
  have z: "main a fs st0 = (Uncaught ValueError, print Scanning st0)" if "keep_every a = 0"
    using assms that by (rule main_zero_stride)
  have "select_shots (find_images tree) (offset a) (keep_every a)
          = slice_from (sorted_list_of_set (shot_ids (find_images tree))) (offset a) (keep_every a)"
    by (simp add: select_shots_def Let_def sorted_shots)
  then show ?thesis
    using z main_nonzero_stride[OF assms, of a st0] by auto
qed

theorem stride_offset_not_validated_witness:
  "main \<lparr>keep_every = 0, offset = 0\<rparr> one_image empty_out
     = (Uncaught ValueError, print Scanning empty_out) \<and>
   fst (main \<lparr>keep_every = 2, offset = 5\<rparr> one_image empty_out) = Returned"
  using stride_offset_not_validated[of one_image "[(''000001_0.png'', [''pixels''])]"
          "\<lparr>keep_every = 0, offset = 0\<rparr>" empty_out]
        stride_offset_not_validated[of one_image "[(''000001_0.png'', [''pixels''])]"
          "\<lparr>keep_every = 2, offset = 5\<rparr>" empty_out]
  by (auto simp: one_image_def find_images_one)

text \<open>
  Claim C7. When the image root holds no image file, the program reports it and exits
  with status 1; no directory is created and no file written.
\<close>

theorem no_images_aborts:
  assumes "source_exists fs" and "images fs = Some tree" and "find_images tree = []"
  shows "fst (main a fs st0) = SysExit 1 \<and>
         log (snd (main a fs st0)) = log st0 @ [Scanning, ErrorNoImages] \<and>
         dirs (snd (main a fs st0)) = dirs st0 \<and>
         files (snd (main a fs st0)) = files st0"
  using assms by (simp add: main_no_images)

theorem no_images_aborts_witness:
  "main \<lparr>keep_every = 4, offset = 0\<rparr>
     \<lparr>source_exists = True, images = Some [(''notes.txt'', [''text''])], sparse_0 = None, sparse = None\<rparr>
     empty_out
   = (SysExit 1, \<lparr>dirs = {}, files = Map.empty, log = [Scanning, ErrorNoImages]\<rparr>)"
proof -
  have e: "find_images [(''notes.txt'', [''text''])] = []"
    by (simp add: find_images_def rglob_def endswith_def path_name_def basename_def rfind_def)
  show ?thesis
    using no_images_aborts[of "\<lparr>source_exists = True, images = Some [(''notes.txt'', [''text''])],
                                 sparse_0 = None, sparse = None\<rparr>"
            "[(''notes.txt'', [''text''])]" "\<lparr>keep_every = 4, offset = 0\<rparr>" empty_out] e
    by (cases "main \<lparr>keep_every = 4, offset = 0\<rparr>
     \<lparr>source_exists = True, images = Some [(''notes.txt'', [''text''])], sparse_0 = None, sparse = None\<rparr>
     empty_out") (simp add: empty_out_def)
qed

text \<open>
  Claim C8. When the sparse directory holds \<open>images.bin\<close> and no \<open>images.txt\<close>, the program
  warns that filtering is not implemented (with the advice to run the reconstruction on
  the subsampled images), returns normally with the images of the selected shots copied,
  writes no filtered pose file, and does not depend on the content of the binary file.
\<close>

theorem binary_pose_only:
  assumes "source_exists fs" and "images fs = Some tree" and "find_images tree \<noteq> []"
    and "keep_every a \<noteq> 0"
    and "sparse_dir fs = Some d" and "d ''images.txt'' = None" and "d ''images.bin'' = Some b"
  shows "fst (main a fs st0) = Returned \<and>
         WarningImagesBin \<in> set (log (snd (main a fs st0))) \<and>
         (\<forall>k. FilteredImagesTxt k \<in> set (log (snd (main a fs st0)))
                \<longrightarrow> FilteredImagesTxt k \<in> set (log st0)) \<and>
         files (snd (main a fs st0)) ''sparse/0/images.txt'' = files st0 ''sparse/0/images.txt'' \<and>
         (\<exists>sel. select_shots (find_images tree) (offset a) (keep_every a) = Inr sel \<and>
                (\<forall>r \<in> selected_rel (find_images tree) sel.
                   files (snd (main a fs st0)) (''images/'' @ r) = map_of tree r)) \<and>
         (\<forall>fs' b'. source_exists fs' = source_exists fs \<and> images fs' = images fs \<and>
                   sparse_dir fs' = Some (d(''images.bin'' \<mapsto> b'))
                \<longrightarrow> main a fs' st0 = main a fs st0)"
proof -
  obtain sel where sel: "select_shots (find_images tree) (offset a) (keep_every a) = Inr sel"
    using select_shots_total[OF assms(4)] by blast
  let ?R = "selected_rel (find_images tree) sel"
  from main_run[OF assms(1-3) sel, of st0] obtain st7 n1 n2 n3 n5 where
    r: "main a fs st0 = process_sparse a fs ?R (path_name ` ?R) st7"
       "files st7 = (\<lambda>p. if p \<in> (\<lambda>r. ''images/'' @ r) ` ?R
                             then map_of tree (drop 7 p) else files st0 p)"
       "log st7 = log st0 @ [Scanning, Statistics n1 n2 n3 (keep_every a) n5,
                       SelectedImages (card ?R), CopyingImages, CopiedImages (card ?R)]"
    by (elim exE conjE) (rule that)
  note b = process_sparse_binary_facts[OF assms(5-7),
             where a = a and R = ?R and N = "path_name ` ?R" and st = st7]
  have 1: "fst (main a fs st0) = Returned" by (simp only: r(1) process_sparse_returns)
  have 2: "WarningImagesBin \<in> set (log (snd (main a fs st0)))" using b(1) by (simp only: r(1))
  have 3: "\<forall>k. FilteredImagesTxt k \<in> set (log (snd (main a fs st0)))
                \<longrightarrow> FilteredImagesTxt k \<in> set (log st0)"
  proof (intro allI impI)
    fix k assume "FilteredImagesTxt k \<in> set (log (snd (main a fs st0)))"
    then have "FilteredImagesTxt k \<in> set (log st7)" using b(2)[of k] by (simp only: r(1))
    then show "FilteredImagesTxt k \<in> set (log st0)" by (simp add: r(3))
  qed
  have "files st7 ''sparse/0/images.txt'' = files st0 ''sparse/0/images.txt''"
    by (auto simp: r(2))
  then have 4: "files (snd (main a fs st0)) ''sparse/0/images.txt'' = files st0 ''sparse/0/images.txt''"
    using b(3) by (simp only: r(1))
  have "\<forall>r \<in> ?R. files (snd (main a fs st0)) (''images/'' @ r) = map_of tree r"
    using main_nonzero_stride[OF assms(1-4), of st0] sel by auto
  then have 5: "\<exists>sel. select_shots (find_images tree) (offset a) (keep_every a) = Inr sel \<and>
                (\<forall>r \<in> selected_rel (find_images tree) sel.
                   files (snd (main a fs st0)) (''images/'' @ r) = map_of tree r)"
    using sel by (intro exI[of _ sel] conjI)
  have 6: "\<forall>fs' b'. source_exists fs' = source_exists fs \<and> images fs' = images fs \<and>
                   sparse_dir fs' = Some (d(''images.bin'' \<mapsto> b'))
                \<longrightarrow> main a fs' st0 = main a fs st0"
  proof (intro allI impI, elim conjE)
    fix fs' b'
    assume "source_exists fs' = source_exists fs" "images fs' = images fs"
      "sparse_dir fs' = Some (d(''images.bin'' \<mapsto> b'))"
    then show "main a fs' st0 = main a fs st0"
      using main_binary_content[OF assms(5-7)] by blast
  qed
  show ?thesis
    by (intro conjI) (rule 1, rule 2, rule 3, rule 4, rule 5, rule 6)
qed

theorem binary_pose_only_witness:
  "fst (main \<lparr>keep_every = 4, offset = 0\<rparr> binary_only empty_out) = Returned \<and>
   WarningImagesBin \<in> set (log (snd (main \<lparr>keep_every = 4, offset = 0\<rparr> binary_only empty_out))) \<and>
   files (snd (main \<lparr>keep_every = 4, offset = 0\<rparr> binary_only empty_out)) ''sparse/0/images.txt''
     = None"
proof -
  have pre: "source_exists binary_only"
    "images binary_only = Some [(''000001_0.png'', [''pixels''])]"
    "find_images [(''000001_0.png'', [''pixels''])] \<noteq> []"
    "keep_every \<lparr>keep_every = 4, offset = 0\<rparr> \<noteq> 0"
    "sparse_dir binary_only = Some [''images.bin'' \<mapsto> [''binary'']]"
    "[''images.bin'' \<mapsto> [''binary'']] ''images.txt'' = None"
    "[''images.bin'' \<mapsto> [''binary'']] ''images.bin'' = Some [''binary'']"
    by (simp_all add: binary_only_def find_images_one sparse_dir_def)
  have "files empty_out ''sparse/0/images.txt'' = None" by (simp add: empty_out_def)
  then show ?thesis using binary_pose_only[OF pre, of empty_out] by simp
qed

text \<open>
  Claim C9. In an output directory that held none of the images before, after any run
  either every image of a shot is present (with the content of its source) or none is.
\<close>

theorem shot_atomic:
  assumes "images fs = Some tree"
    and "\<forall>r \<in> set (find_images tree). files st0 (''images/'' @ r) = None"
  shows "(\<forall>p \<in> set (find_images tree).
            shot_of p = shot \<longrightarrow> files (snd (main a fs st0)) (''images/'' @ p) = map_of tree p \<and>
              map_of tree p \<noteq> None) \<or>
         (\<forall>p \<in> set (find_images tree).
            shot_of p = shot \<longrightarrow> files (snd (main a fs st0)) (''images/'' @ p) = None)"
proof (cases "fst (main a fs st0) = Returned")
  case False
  then show ?thesis using main_aborts_frame[OF False] assms(2) by simp
next
  case True
  have src: "source_exists fs"
    using True main_source_missing[of fs a st0] by (cases "source_exists fs") auto
  have ne: "find_images tree \<noteq> []"
    using True main_no_images[OF src assms(1), of a st0] by (cases "find_images tree = []") auto
  have nz: "keep_every a \<noteq> 0"
    using True main_zero_stride[OF src assms(1) ne, of a st0] by (cases "keep_every a = 0") auto
  from main_nonzero_stride[OF src assms(1) ne nz, of st0] obtain sel where
    f: "\<forall>r. files (snd (main a fs st0)) (''images/'' @ r)
                  = (if r \<in> selected_rel (find_images tree) sel then map_of tree r
                     else files st0 (''images/'' @ r))"
    by blast
  have ex: "map_of tree p \<noteq> None" if "p \<in> set (find_images tree)" for p
    using that find_images_subset[of tree] by (auto simp: map_of_eq_None_iff)
  show ?thesis
  proof (cases "shot \<in> set sel")
    case True
    then show ?thesis using f ex by (auto simp: selected_rel_def)
  next
    case False
    then show ?thesis using f assms(2) by (auto simp: selected_rel_def)
  qed
qed

theorem shot_atomic_witness:
  "(\<forall>p \<in> set (find_images [(''000001_0.png'', [''left'']), (''000002_0.png'', [''other'']),
                                (''000001_1.png'', [''right''])]).
      shot_of p = ''000001'' \<longrightarrow>
        files (snd (main \<lparr>keep_every = 2, offset = 0\<rparr> two_shots empty_out)) (''images/'' @ p)
          = map_of [(''000001_0.png'', [''left'']), (''000002_0.png'', [''other'']),
                    (''000001_1.png'', [''right''])] p \<and>
        map_of [(''000001_0.png'', [''left'']), (''000002_0.png'', [''other'']),
                (''000001_1.png'', [''right''])] p \<noteq> None) \<or>
   (\<forall>p \<in> set (find_images [(''000001_0.png'', [''left'']), (''000002_0.png'', [''other'']),
                                (''000001_1.png'', [''right''])]).
      shot_of p = ''000001'' \<longrightarrow>
        files (snd (main \<lparr>keep_every = 2, offset = 0\<rparr> two_shots empty_out)) (''images/'' @ p)
          = None)"
proof -
  have pre: "images two_shots = Some [(''000001_0.png'', [''left'']), (''000002_0.png'', [''other'']),
                                     (''000001_1.png'', [''right''])]"
    by (simp add: two_shots_def)
  have emp: "\<forall>r \<in> set (find_images [(''000001_0.png'', [''left'']), (''000002_0.png'', [''other'']),
                                (''000001_1.png'', [''right''])]).
               files empty_out (''images/'' @ r) = None"
    by (simp add: empty_out_def)
  show ?thesis by (rule shot_atomic[OF pre emp])
qed

text \<open>
  Claim C6, as stated: with stride 1 and offset 0 the filtered pose file is identical to
  the input. A pose file whose only entry names an existing image, followed by a blank
  line, is filtered to a file without the blank line.
\<close>

theorem full_selection_drops_blank_line:
  "files (snd (main \<lparr>keep_every = 1, offset = 0\<rparr> posed_image empty_out)) ''sparse/0/images.txt''
     = Some [''1 0 0 0 0 0 0 0 1 000001_0.png'', ''10 20 5''] \<and>
   the (sparse_0 posed_image) ''images.txt''
     = Some [''1 0 0 0 0 0 0 0 1 000001_0.png'', ''10 20 5'', [CHR 0x0A]]"
proof -
  let ?items = "[Entry ''1 0 0 0 0 0 0 0 1 000001_0.png'' ''10 20 5'', Blank [CHR 0x0A]]"
  let ?d = "[''images.txt'' \<mapsto> [''1 0 0 0 0 0 0 0 1 000001_0.png'', ''10 20 5'', [CHR 0x0A]]]"
  have wf: "\<forall>it \<in> set ?items. wf_item it"
    by (simp add: startswith_hash_def strip_def isspace_def)
  have "files (snd (main \<lparr>keep_every = 1, offset = 0\<rparr> posed_image empty_out))
          ''sparse/0/images.txt''
        = Some (concat (map (expected_lines (existing_images [(''000001_0.png'', [''pixels''])]))
                  ?items))"
    by (rule main_full_poses[where d = ?d])
       (simp_all add: posed_image_def find_images_one sparse_dir_def render_def
          startswith_hash_def strip_def isspace_def)
  then show ?thesis by (simp add: header_000001_retained posed_image_def)
qed

text \<open>
  Claim C6, amended. With stride 1 and offset 0 the output holds every image found, with
  the content of its source, and writes no other image; the filtered pose file is the
  input without its blank lines and without the entries whose NAME is neither the
  relative path nor the file name of an image found. It is identical to the input when
  the input has no blank line and every entry names such an image.
\<close>

theorem full_selection:
  assumes "source_exists fs" and "images fs = Some tree" and "find_images tree \<noteq> []"
    and "keep_every a = 1" and "offset a = 0"
  shows "(\<forall>r. files (snd (main a fs st0)) (''images/'' @ r)
               = (if r \<in> set (find_images tree) then map_of tree r
                  else files st0 (''images/'' @ r))) \<and>
         (\<forall>d items. sparse_dir fs = Some d \<and> d ''images.txt'' = Some (render items) \<and>
              (\<forall>it \<in> set items. wf_item it) \<longrightarrow>
            files (snd (main a fs st0)) ''sparse/0/images.txt''
              = Some (concat (map (expected_lines (existing_images tree)) items)) \<and>
            ((\<forall>it \<in> set items. verbatim_item (existing_images tree) it) \<longrightarrow>
               files (snd (main a fs st0)) ''sparse/0/images.txt'' = Some (render items)))"
  using main_full_images[OF assms] main_full_poses[OF assms] expected_lines_verbatim
  by auto

theorem full_selection_witness:
  "files (snd (main \<lparr>keep_every = 1, offset = 0\<rparr> posed_pair empty_out)) ''images/000001_0.png''
     = Some [''pixels''] \<and>
   files (snd (main \<lparr>keep_every = 1, offset = 0\<rparr> posed_pair empty_out)) ''sparse/0/images.txt''
     = Some [''# pose file'', ''1 0 0 0 0 0 0 0 1 000001_0.png'', ''10 20 5'']"
proof -
  let ?items = "[Comment ''# pose file'', Entry ''1 0 0 0 0 0 0 0 1 000001_0.png'' ''10 20 5'']"
  let ?out = "snd (main \<lparr>keep_every = 1, offset = 0\<rparr> posed_pair empty_out)"
  let ?tree = "[(''000001_0.png'', [''pixels''])]"
  have wf: "\<forall>it \<in> set ?items. wf_item it"
    by (simp add: startswith_hash_def strip_def isspace_def)
  have vb: "\<forall>it \<in> set ?items. verbatim_item (existing_images ?tree) it"
    by (simp add: header_000001_retained)
  have rd: "render ?items = [''# pose file'', ''1 0 0 0 0 0 0 0 1 000001_0.png'', ''10 20 5'']"
    by (simp add: render_def)
  have sd: "sparse_dir posed_pair = Some [''images.txt'' \<mapsto> render ?items]"
    by (simp add: sparse_dir_def posed_pair_def rd)
  have pre: "source_exists posed_pair" "images posed_pair = Some ?tree"
    "find_images ?tree \<noteq> []"
    "keep_every \<lparr>keep_every = 1, offset = 0\<rparr> = 1" "offset \<lparr>keep_every = 1, offset = 0\<rparr> = 0"
    by (simp_all add: posed_pair_def find_images_one)
  note t = full_selection[OF pre, of empty_out]
  from t have c: "files ?out (''images/'' @ ''000001_0.png'')
               = (if ''000001_0.png'' \<in> set (find_images ?tree)
                  then map_of ?tree ''000001_0.png''
                  else files empty_out (''images/'' @ ''000001_0.png''))"
    by blast
  from t have p: "sparse_dir posed_pair = Some [''images.txt'' \<mapsto> render ?items] \<and>
              [''images.txt'' \<mapsto> render ?items] ''images.txt'' = Some (render ?items) \<and>
              (\<forall>it \<in> set ?items. wf_item it) \<longrightarrow>
            files ?out ''sparse/0/images.txt''
              = Some (concat (map (expected_lines (existing_images ?tree)) ?items)) \<and>
            ((\<forall>it \<in> set ?items. verbatim_item (existing_images ?tree) it) \<longrightarrow>
               files ?out ''sparse/0/images.txt'' = Some (render ?items))"
    by blast
  have "files ?out (''images/'' @ ''000001_0.png'') = Some [''pixels'']"
    by (simp only: c find_images_one) simp
  moreover have "files ?out ''sparse/0/images.txt'' = Some (render ?items)"
    using p sd wf vb by (simp add: rd)
  ultimately show ?thesis by (simp add: rd)
qed


end
